theory Spec2Isabelle
  imports Main "HOL-Library.Word"
begin

unbundle bit_operations_syntax

section \<open>JavaScript strings and Node buffers\<close>

text \<open>
  The node is JavaScript: a string is a sequence of UTF-16 code units, and
  \<^verbatim>\<open>length\<close>, \<^verbatim>\<open>padEnd\<close>, \<^verbatim>\<open>slice\<close>, \<^verbatim>\<open>split\<close> and the regular expressions
  all count code units. A \<^verbatim>\<open>Buffer\<close> is a sequence of bytes.
\<close>

type_synonym byte = "8 word"
type_synonym buffer = "byte list"
type_synonym code_unit = "16 word"
type_synonym jsstring = "code_unit list"

definition lit :: "string \<Rightarrow> jsstring" where
  "lit s = map of_char s"

text \<open>\<^verbatim>\<open>s.padEnd(n, c)\<close> for a one-character filler \<^verbatim>\<open>c\<close>.\<close>

definition padEnd :: "nat \<Rightarrow> code_unit \<Rightarrow> jsstring \<Rightarrow> jsstring" where
  "padEnd n c s = s @ replicate (n - length s) c"

text \<open>\<^verbatim>\<open>s.slice(a, b)\<close> for non-negative indices.\<close>

definition slice_str :: "nat \<Rightarrow> nat \<Rightarrow> jsstring \<Rightarrow> jsstring" where
  "slice_str a b s = drop a (take b s)"

text \<open>\<^verbatim>\<open>s.includes(c)\<close> and \<^verbatim>\<open>s.split(c)\<close> for a one-character \<^verbatim>\<open>c\<close>.\<close>

definition includes_str :: "code_unit \<Rightarrow> jsstring \<Rightarrow> bool" where
  "includes_str c s = (c \<in> set s)"

fun split_str :: "code_unit \<Rightarrow> jsstring \<Rightarrow> jsstring list" where
  "split_str sep [] = [[]]"
| "split_str sep (c # cs) =
     (if c = sep then [] # split_str sep cs
      else (let r = split_str sep cs in (c # hd r) # tl r))"

text \<open>\<^verbatim>\<open>s.replace(/c/g, r)\<close>: every occurrence of the character is replaced.\<close>

definition replace_all :: "code_unit \<Rightarrow> jsstring \<Rightarrow> jsstring \<Rightarrow> jsstring" where
  "replace_all c r s = concat (map (\<lambda>x. if x = c then r else [x]) s)"

text \<open>The template literal's rendering of a number: decimal digits.\<close>

fun show_nat :: "nat \<Rightarrow> jsstring" where
  "show_nat n =
     (if n < 10 then [of_nat (48 + n)]
      else show_nat (n div 10) @ [of_nat (48 + n mod 10)])"

subsection \<open>The three regular expressions of the detection\<close>

text \<open>\<^verbatim>\<open>[0-9a-fA-F]\<close>\<close>

definition is_hex_char :: "code_unit \<Rightarrow> bool" where
  "is_hex_char c =
     (let n = unat c in
      (48 \<le> n \<and> n \<le> 57) \<or> (97 \<le> n \<and> n \<le> 102) \<or> (65 \<le> n \<and> n \<le> 70))"

text \<open>\<^verbatim>\<open>[+/=]\<close>\<close>

definition is_b64_punct :: "code_unit \<Rightarrow> bool" where
  "is_b64_punct c = (c = 43 \<or> c = 47 \<or> c = 61)"

text \<open>\<^verbatim>\<open>[A-Za-z0-9_-]\<close>\<close>

definition is_b64url_char :: "code_unit \<Rightarrow> bool" where
  "is_b64url_char c =
     (let n = unat c in
      (65 \<le> n \<and> n \<le> 90) \<or> (97 \<le> n \<and> n \<le> 122) \<or> (48 \<le> n \<and> n \<le> 57)
      \<or> n = 95 \<or> n = 45)"

text \<open>\<^verbatim>\<open>/^[0-9a-fA-F]+$/.test(s)\<close>, \<^verbatim>\<open>/[+/=]/.test(s)\<close> and
  \<^verbatim>\<open>/^[A-Za-z0-9_-]+$/.test(s)\<close>. Without the \<^verbatim>\<open>m\<close> flag, \<^verbatim>\<open>^\<close> and \<^verbatim>\<open>$\<close> are
  the two ends of the string.\<close>

definition test_hex :: "jsstring \<Rightarrow> bool" where
  "test_hex s = (s \<noteq> [] \<and> list_all is_hex_char s)"

definition test_b64_punct :: "jsstring \<Rightarrow> bool" where
  "test_b64_punct s = list_ex is_b64_punct s"

definition test_b64url :: "jsstring \<Rightarrow> bool" where
  "test_b64url s = (s \<noteq> [] \<and> list_all is_b64url_char s)"

subsection \<open>UTF-8\<close>

text \<open>
  \<^verbatim>\<open>Buffer.from(s)\<close> and \<^verbatim>\<open>cipher.update(s, 'utf8')\<close> encode a string as UTF-8:
  a surrogate pair is one code point of four bytes, and a surrogate that has no
  partner is written as U+FFFD.
\<close>

definition is_high_surrogate :: "code_unit \<Rightarrow> bool" where
  "is_high_surrogate c = (55296 \<le> unat c \<and> unat c \<le> 56319)"

definition is_low_surrogate :: "code_unit \<Rightarrow> bool" where
  "is_low_surrogate c = (56320 \<le> unat c \<and> unat c \<le> 57343)"

definition utf8_bytes :: "nat \<Rightarrow> buffer" where
  "utf8_bytes cp =
     (if cp < 128 then [of_nat cp]
      else if cp < 2048 then [of_nat (192 + cp div 64), of_nat (128 + cp mod 64)]
      else if cp < 65536 then
        [of_nat (224 + cp div 4096), of_nat (128 + cp div 64 mod 64), of_nat (128 + cp mod 64)]
      else
        [of_nat (240 + cp div 262144), of_nat (128 + cp div 4096 mod 64),
         of_nat (128 + cp div 64 mod 64), of_nat (128 + cp mod 64)])"

definition unit_code_point :: "code_unit \<Rightarrow> nat" where
  "unit_code_point c =
     (if is_high_surrogate c \<or> is_low_surrogate c then 65533 else unat c)"

fun utf8_encode :: "jsstring \<Rightarrow> buffer" where
  "utf8_encode [] = []"
| "utf8_encode [c] = utf8_bytes (unit_code_point c)"
| "utf8_encode (c # d # cs) =
     (if is_high_surrogate c \<and> is_low_surrogate d
      then utf8_bytes (65536 + (unat c - 55296) * 1024 + (unat d - 56320)) @ utf8_encode cs
      else utf8_bytes (unit_code_point c) @ utf8_encode (d # cs))"

text \<open>
  The decoder behind \<^verbatim>\<open>decipher.update(buf, undefined, 'utf8')\<close> and
  \<^verbatim>\<open>decipher.final('utf8')\<close> is a \<^verbatim>\<open>StringDecoder\<close>: it keeps an incomplete
  character between the two calls and never fails; a byte sequence that is not UTF-8
  comes out as U+FFFD. The state is the code point so far, the number of continuation
  bytes still needed and the range allowed for the next byte.
\<close>

record utf8_state =
  cp :: nat
  needed :: nat
  lower :: nat
  upper :: nat

definition utf8_init :: utf8_state where
  "utf8_init = \<lparr>cp = 0, needed = 0, lower = 128, upper = 191\<rparr>"

definition emit_cp :: "nat \<Rightarrow> jsstring" where
  "emit_cp n =
     (if n < 65536 then [of_nat n]
      else [of_nat (55296 + (n - 65536) div 1024), of_nat (56320 + (n - 65536) mod 1024)])"

definition utf8_lead :: "nat \<Rightarrow> jsstring \<times> utf8_state" where
  "utf8_lead b =
     (if b < 128 then ([of_nat b], utf8_init)
      else if 194 \<le> b \<and> b \<le> 223 then
        ([], \<lparr>cp = b - 192, needed = 1, lower = 128, upper = 191\<rparr>)
      else if 224 \<le> b \<and> b \<le> 239 then
        ([], \<lparr>cp = b - 224, needed = 2,
              lower = (if b = 224 then 160 else 128),
              upper = (if b = 237 then 159 else 191)\<rparr>)
      else if 240 \<le> b \<and> b \<le> 244 then
        ([], \<lparr>cp = b - 240, needed = 3,
              lower = (if b = 240 then 144 else 128),
              upper = (if b = 244 then 143 else 191)\<rparr>)
      else ([65533], utf8_init))"

definition utf8_step :: "utf8_state \<Rightarrow> byte \<Rightarrow> jsstring \<times> utf8_state" where
  "utf8_step st byte =
     (let b = unat byte in
      if needed st = 0 then utf8_lead b
      else if b < lower st \<or> upper st < b then
        (let (out, st') = utf8_lead b in (65533 # out, st'))
      else
        (let c = cp st * 64 + (b - 128) in
         if needed st = 1 then (emit_cp c, utf8_init)
         else ([], \<lparr>cp = c, needed = needed st - 1, lower = 128, upper = 191\<rparr>)))"

fun utf8_write :: "utf8_state \<Rightarrow> buffer \<Rightarrow> jsstring \<times> utf8_state" where
  "utf8_write st [] = ([], st)"
| "utf8_write st (b # bs) =
     (let (o1, st1) = utf8_step st b; (o2, st2) = utf8_write st1 bs in (o1 @ o2, st2))"

definition utf8_end :: "utf8_state \<Rightarrow> buffer \<Rightarrow> jsstring" where
  "utf8_end st bs =
     (let (out, st') = utf8_write st bs
      in out @ (if needed st' \<noteq> 0 then [65533] else []))"

subsection \<open>Hexadecimal\<close>

definition hex_digit :: "nat \<Rightarrow> code_unit" where
  "hex_digit d = of_nat (if d < 10 then 48 + d else 87 + d)"

definition hex_encode :: "buffer \<Rightarrow> jsstring" where
  "hex_encode bs =
     concat (map (\<lambda>b. [hex_digit (unat b div 16), hex_digit (unat b mod 16)]) bs)"

text \<open>The decoders of \<^verbatim>\<open>Buffer.from(s, encoding)\<close> read one byte of each code
  unit, its low one: a character above U+00FF is read as the character of its low
  byte.\<close>

definition low_byte :: "code_unit \<Rightarrow> nat" where
  "low_byte c = unat c mod 256"

definition unhex :: "code_unit \<Rightarrow> nat option" where
  "unhex c =
     (let n = low_byte c in
      if 48 \<le> n \<and> n \<le> 57 then Some (n - 48)
      else if 97 \<le> n \<and> n \<le> 102 then Some (n - 87)
      else if 65 \<le> n \<and> n \<le> 70 then Some (n - 55)
      else None)"

text \<open>\<^verbatim>\<open>Buffer.from(s, 'hex')\<close> stops at the first pair that is not two hex digits
  and drops a last digit that has no partner.\<close>

fun hex_decode :: "jsstring \<Rightarrow> buffer" where
  "hex_decode (a # b # cs) =
     (case unhex a of
        None \<Rightarrow> []
      | Some h \<Rightarrow>
          (case unhex b of
             None \<Rightarrow> []
           | Some l \<Rightarrow> of_nat (h * 16 + l) # hex_decode cs))"
| "hex_decode [a] = []"
| "hex_decode [] = []"

subsection \<open>Base64\<close>

text \<open>Three bytes are four digits of six bits; one or two last bytes are two or
  three digits. The standard alphabet pads the text with \<^verbatim>\<open>=\<close> to a multiple of
  four characters.\<close>

fun sextets :: "buffer \<Rightarrow> nat list" where
  "sextets (a # b # c # r) =
     [unat a div 4, unat a mod 4 * 16 + unat b div 16,
      unat b mod 16 * 4 + unat c div 64, unat c mod 64] @ sextets r"
| "sextets [a, b] =
     [unat a div 4, unat a mod 4 * 16 + unat b div 16, unat b mod 16 * 4]"
| "sextets [a] = [unat a div 4, unat a mod 4 * 16]"
| "sextets [] = []"

fun unsextets :: "nat list \<Rightarrow> buffer" where
  "unsextets (p # q # r # s # t) =
     [of_nat (p * 4 + q div 16), of_nat (q mod 16 * 16 + r div 4),
      of_nat (r mod 4 * 64 + s)] @ unsextets t"
| "unsextets [p, q, r] = [of_nat (p * 4 + q div 16), of_nat (q mod 16 * 16 + r div 4)]"
| "unsextets [p, q] = [of_nat (p * 4 + q div 16)]"
| "unsextets [p] = []"
| "unsextets [] = []"

definition b64_char :: "nat \<Rightarrow> code_unit" where
  "b64_char n =
     of_nat (if n < 26 then 65 + n else if n < 52 then 71 + n
             else if n < 62 then n - 4 else if n = 62 then 43 else 47)"

definition b64url_char :: "nat \<Rightarrow> code_unit" where
  "b64url_char n =
     of_nat (if n < 26 then 65 + n else if n < 52 then 71 + n
             else if n < 62 then n - 4 else if n = 62 then 45 else 95)"

definition base64_encode :: "buffer \<Rightarrow> jsstring" where
  "base64_encode bs =
     map b64_char (sextets bs) @ replicate ((3 - length bs mod 3) mod 3) 61"

definition base64url_encode :: "buffer \<Rightarrow> jsstring" where
  "base64url_encode bs = map b64url_char (sextets bs)"

text \<open>\<^verbatim>\<open>Buffer.from(s, 'base64')\<close> reads both alphabets, skips every byte that is
  in neither, stops at the first \<^verbatim>\<open>=\<close> and needs no padding. \<open>unbase64\<close> is its
  table, on the low byte of a code unit.\<close>

definition unbase64 :: "nat \<Rightarrow> nat option" where
  "unbase64 n =
     (if 65 \<le> n \<and> n \<le> 90 then Some (n - 65)
      else if 97 \<le> n \<and> n \<le> 122 then Some (n - 71)
      else if 48 \<le> n \<and> n \<le> 57 then Some (n + 4)
      else if n = 43 \<or> n = 45 then Some 62
      else if n = 47 \<or> n = 95 then Some 63
      else None)"

definition base64_decode :: "jsstring \<Rightarrow> buffer" where
  "base64_decode s =
     unsextets (List.map_filter unbase64 (takeWhile (\<lambda>b. b \<noteq> 61) (map low_byte s)))"

subsection \<open>\<^verbatim>\<open>buf.toString(encoding)\<close> and \<^verbatim>\<open>Buffer.from(s, encoding)\<close>\<close>

datatype encoding = Hex | Base64 | Base64Url

fun buffer_toString :: "buffer \<Rightarrow> encoding \<Rightarrow> jsstring" where
  "buffer_toString bs Hex = hex_encode bs"
| "buffer_toString bs Base64 = base64_encode bs"
| "buffer_toString bs Base64Url = base64url_encode bs"

fun buffer_from :: "jsstring \<Rightarrow> encoding \<Rightarrow> buffer" where
  "buffer_from s Hex = hex_decode s"
| "buffer_from s Base64 = base64_decode s"
| "buffer_from s Base64Url = base64_decode s"

text \<open>The \<^verbatim>\<open>StringDecoder\<close> that \<^verbatim>\<open>cipher.update(data, 'utf8', encoding)\<close> and
  \<^verbatim>\<open>cipher.final(encoding)\<close> share: for base64 it holds back the bytes that do not
  fill a group of three, and \<^verbatim>\<open>end\<close> writes them out.\<close>

fun sd_write :: "encoding \<Rightarrow> buffer \<Rightarrow> buffer \<Rightarrow> jsstring \<times> buffer" where
  "sd_write Hex held bs = (hex_encode (held @ bs), [])"
| "sd_write enc held bs =
     (let n = 3 * (length (held @ bs) div 3)
      in (buffer_toString (take n (held @ bs)) enc, drop n (held @ bs)))"

definition sd_end :: "encoding \<Rightarrow> buffer \<Rightarrow> buffer \<Rightarrow> jsstring" where
  "sd_end enc held bs =
     (let (s, rest) = sd_write enc held bs in s @ buffer_toString rest enc)"

section \<open>AES-256-CBC as Node's \<^verbatim>\<open>crypto\<close> module runs it\<close>

text \<open>
  The block function of AES-256 and its inverse belong to OpenSSL, as do the texts of
  its error messages: they are the fields of a \<open>platform\<close>, which every operation
  takes as its first argument. The cipher-block chaining and the PKCS#7 padding around
  them are written out.
\<close>

datatype cipher_error = InvalidIV | InvalidKeyLength | WrongFinalBlockLength | BadDecrypt

record platform =
  aes_encrypt_block :: "buffer \<Rightarrow> buffer \<Rightarrow> buffer"
  aes_decrypt_block :: "buffer \<Rightarrow> buffer \<Rightarrow> buffer"
  cipher_message :: "cipher_error \<Rightarrow> jsstring"

definition xor_bytes :: "buffer \<Rightarrow> buffer \<Rightarrow> buffer" where
  "xor_bytes a b = map2 (XOR) a b"

text \<open>\<open>n\<close> blocks of 16 bytes, chained from \<open>prev\<close>: the output, and the value the
  next block is chained from.\<close>

primrec cbc_enc :: "(buffer \<Rightarrow> buffer) \<Rightarrow> nat \<Rightarrow> buffer \<Rightarrow> buffer \<Rightarrow> buffer" where
  "cbc_enc E 0 prev data = []"
| "cbc_enc E (Suc n) prev data =
     (let c = E (xor_bytes (take 16 data) prev)
      in c @ cbc_enc E n c (drop 16 data))"

primrec cbc_enc_chain :: "(buffer \<Rightarrow> buffer) \<Rightarrow> nat \<Rightarrow> buffer \<Rightarrow> buffer \<Rightarrow> buffer" where
  "cbc_enc_chain E 0 prev data = prev"
| "cbc_enc_chain E (Suc n) prev data =
     cbc_enc_chain E n (E (xor_bytes (take 16 data) prev)) (drop 16 data)"

primrec cbc_dec :: "(buffer \<Rightarrow> buffer) \<Rightarrow> nat \<Rightarrow> buffer \<Rightarrow> buffer \<Rightarrow> buffer" where
  "cbc_dec D 0 prev data = []"
| "cbc_dec D (Suc n) prev data =
     xor_bytes (D (take 16 data)) prev @ cbc_dec D n (take 16 data) (drop 16 data)"

primrec cbc_dec_chain :: "nat \<Rightarrow> buffer \<Rightarrow> buffer \<Rightarrow> buffer" where
  "cbc_dec_chain 0 prev data = prev"
| "cbc_dec_chain (Suc n) prev data = cbc_dec_chain n (take 16 data) (drop 16 data)"

subsection \<open>\<^verbatim>\<open>createCipheriv('aes-256-cbc', key, iv)\<close>\<close>

record cipher =
  ckey :: buffer
  chain :: buffer
  pending :: buffer
  held :: buffer

definition createCipheriv :: "buffer \<Rightarrow> buffer \<Rightarrow> cipher_error + cipher" where
  "createCipheriv key iv =
     (if length iv \<noteq> 16 then Inl InvalidIV
      else if length key \<noteq> 32 then Inl InvalidKeyLength
      else Inr \<lparr>ckey = key, chain = iv, pending = [], held = []\<rparr>)"

text \<open>\<^verbatim>\<open>cipher.update(data)\<close> encrypts the complete blocks and keeps the rest;
  \<^verbatim>\<open>cipher.final()\<close> pads what is kept to one block and encrypts it.\<close>

definition cipher_update :: "platform \<Rightarrow> cipher \<Rightarrow> buffer \<Rightarrow> buffer \<times> cipher" where
  "cipher_update L c data =
     (let buf = pending c @ data;
          n = length buf div 16;
          E = aes_encrypt_block L (ckey c)
      in (cbc_enc E n (chain c) buf,
          c\<lparr>chain := cbc_enc_chain E n (chain c) buf, pending := drop (16 * n) buf\<rparr>))"

definition cipher_final :: "platform \<Rightarrow> cipher \<Rightarrow> buffer" where
  "cipher_final L c =
     (let k = 16 - length (pending c)
      in aes_encrypt_block L (ckey c)
           (xor_bytes (pending c @ replicate k (of_nat k)) (chain c)))"

text \<open>With an output encoding, both go through the cipher's \<^verbatim>\<open>StringDecoder\<close>.\<close>

definition cipher_update_str ::
  "platform \<Rightarrow> cipher \<Rightarrow> buffer \<Rightarrow> encoding \<Rightarrow> jsstring \<times> cipher" where
  "cipher_update_str L c data enc =
     (let (out, c') = cipher_update L c data;
          (s, rest) = sd_write enc (held c') out
      in (s, c'\<lparr>held := rest\<rparr>))"

definition cipher_final_str :: "platform \<Rightarrow> cipher \<Rightarrow> encoding \<Rightarrow> jsstring" where
  "cipher_final_str L c enc = sd_end enc (held c) (cipher_final L c)"

subsection \<open>\<^verbatim>\<open>createDecipheriv('aes-256-cbc', key, iv)\<close>\<close>

record decipher =
  dkey :: buffer
  dchain :: buffer
  dpending :: buffer
  dtext :: utf8_state

definition createDecipheriv :: "buffer \<Rightarrow> buffer \<Rightarrow> cipher_error + decipher" where
  "createDecipheriv key iv =
     (if length iv \<noteq> 16 then Inl InvalidIV
      else if length key \<noteq> 32 then Inl InvalidKeyLength
      else Inr \<lparr>dkey = key, dchain = iv, dpending = [], dtext = utf8_init\<rparr>)"

text \<open>\<^verbatim>\<open>decipher.update(data)\<close> keeps the last block back, since it holds the
  padding; \<^verbatim>\<open>decipher.final()\<close> needs exactly one block kept, decrypts it and takes
  the padding off, and throws otherwise.\<close>

definition decipher_update :: "platform \<Rightarrow> decipher \<Rightarrow> buffer \<Rightarrow> buffer \<times> decipher" where
  "decipher_update L d data =
     (let buf = dpending d @ data;
          n = (length buf - 1) div 16;
          D = aes_decrypt_block L (dkey d)
      in (cbc_dec D n (dchain d) buf,
          d\<lparr>dchain := cbc_dec_chain n (dchain d) buf, dpending := drop (16 * n) buf\<rparr>))"

definition pkcs7_unpad :: "buffer \<Rightarrow> cipher_error + buffer" where
  "pkcs7_unpad blk =
     (case rev blk of
        [] \<Rightarrow> Inl BadDecrypt
      | p # _ \<Rightarrow>
          (let n = unat p in
           if n = 0 \<or> 16 < n \<or> drop (16 - n) blk \<noteq> replicate n p then Inl BadDecrypt
           else Inr (take (16 - n) blk)))"

definition decipher_final :: "platform \<Rightarrow> decipher \<Rightarrow> cipher_error + buffer" where
  "decipher_final L d =
     (if length (dpending d) \<noteq> 16 then Inl WrongFinalBlockLength
      else pkcs7_unpad (xor_bytes (aes_decrypt_block L (dkey d) (dpending d)) (dchain d)))"

definition decipher_update_str ::
  "platform \<Rightarrow> decipher \<Rightarrow> buffer \<Rightarrow> jsstring \<times> decipher" where
  "decipher_update_str L d data =
     (let (out, d') = decipher_update L d data;
          (s, u) = utf8_write (dtext d') out
      in (s, d'\<lparr>dtext := u\<rparr>))"

definition decipher_final_str :: "platform \<Rightarrow> decipher \<Rightarrow> cipher_error + jsstring" where
  "decipher_final_str L d =
     (case decipher_final L d of
        Inl e \<Rightarrow> Inl e
      | Inr out \<Rightarrow> Inr (utf8_end (dtext d) out))"

text \<open>\<^verbatim>\<open>randomBytes(n)\<close> reads the next \<open>n\<close> bytes of the system's random source,
  a stream of bytes and the position reached in it.\<close>

definition randomBytes :: "(nat \<Rightarrow> byte) \<Rightarrow> nat \<Rightarrow> nat \<Rightarrow> buffer \<times> nat" where
  "randomBytes rnd pos n = (map rnd [pos..<pos + n], pos + n)"

section \<open>The node\<close>

text \<open>
  Every error the node raises is a \<^verbatim>\<open>NodeOperationError\<close>; what tells them apart is
  the message. \<open>CipherFailure\<close> is the error that \<^verbatim>\<open>createCipheriv\<close> itself throws in
  the encrypt branch, which no \<^verbatim>\<open>try\<close> of the branch wraps.
\<close>

datatype node_error =
    KeyNotSet
  | InvalidFormat
  | UndetectedEncoding nat
  | DecryptionFailed cipher_error
  | UnknownOperation jsstring
  | CipherFailure cipher_error

fun message :: "platform \<Rightarrow> node_error \<Rightarrow> jsstring" where
  "message L KeyNotSet = lit ''N8N_ENCRYPTION_KEY environment variable is not set''"
| "message L InvalidFormat =
     lit ''Invalid encrypted text format. Expected format: iv.encryptedData''"
| "message L (UndetectedEncoding n) =
     lit ''Unable to detect encoding format. IV length: '' @ show_nat n
       @ lit ''. Expected 32 (hex), 24 (base64), or 22 (base64url)''"
| "message L (DecryptionFailed e) = lit ''Decryption failed: '' @ cipher_message L e"
| "message L (UnknownOperation operation) = lit ''Unknown operation: '' @ operation"
| "message L (CipherFailure e) = cipher_message L e"

subsection \<open>Key derivation\<close>

text \<open>\<^verbatim>\<open>Buffer.from(encryptionKey.padEnd(32, '0').slice(0, 32))\<close>\<close>

definition derive_key :: "jsstring \<Rightarrow> buffer" where
  "derive_key encryptionKey = utf8_encode (slice_str 0 32 (padEnd 32 48 encryptionKey))"

subsection \<open>The encrypt branch\<close>

definition to_base64url :: "jsstring \<Rightarrow> jsstring" where
  "to_base64url s = replace_all 61 [] (replace_all 47 [95] (replace_all 43 [45] s))"

definition encrypt_branch ::
  "platform \<Rightarrow> buffer \<Rightarrow> buffer \<Rightarrow> jsstring \<Rightarrow> encoding \<Rightarrow> node_error + jsstring" where
  "encrypt_branch L key iv inputField outputFormat =
     (case createCipheriv key iv of
        Inl e \<Rightarrow> Inl (CipherFailure e)
      | Inr cipher \<Rightarrow>
          (let (encrypted, ivString) =
             (if outputFormat = Base64Url then
                (let (b1, c1) = cipher_update L cipher (utf8_encode inputField);
                     encryptedBuffer = b1 @ cipher_final L c1
                 in (to_base64url (buffer_toString encryptedBuffer Base64),
                     to_base64url (buffer_toString iv Base64)))
              else
                (let (s1, c1) = cipher_update_str L cipher (utf8_encode inputField) outputFormat
                 in (s1 @ cipher_final_str L c1 outputFormat,
                     buffer_toString iv outputFormat)))
           in Inr (ivString @ [46] @ encrypted)))"

subsection \<open>The decrypt branch\<close>

text \<open>The detection of the encoding from the IV segment: the pair is the source's
  \<^verbatim>\<open>encoding\<close> and \<^verbatim>\<open>isBase64Url\<close>.\<close>

definition detect_encoding :: "jsstring \<Rightarrow> node_error + encoding \<times> bool" where
  "detect_encoding ivString =
     (if length ivString = 32 \<and> test_hex ivString then Inr (Hex, False)
      else if (length ivString = 24 \<or> length ivString = 22) \<and> test_b64_punct ivString
        then Inr (Base64, False)
      else if length ivString = 22 \<and> test_b64url ivString then Inr (Base64, True)
      else Inl (UndetectedEncoding (length ivString)))"

definition from_base64url :: "jsstring \<Rightarrow> jsstring" where
  "from_base64url s = replace_all 95 [47] (replace_all 45 [43] s)"

text \<open>The body of the inner \<^verbatim>\<open>try\<close>.\<close>

definition decrypt_try ::
  "platform \<Rightarrow> buffer \<Rightarrow> jsstring \<Rightarrow> jsstring \<Rightarrow> encoding \<Rightarrow> bool \<Rightarrow> cipher_error + jsstring"
where
  "decrypt_try L key ivString encryptedData enc isBase64Url =
     (let (iv, encryptedBuffer) =
        (if isBase64Url then
           (buffer_from (from_base64url ivString) Base64,
            buffer_from (from_base64url encryptedData) Base64)
         else (buffer_from ivString enc, buffer_from encryptedData enc))
      in case createDecipheriv key iv of
           Inl e \<Rightarrow> Inl e
         | Inr decipher \<Rightarrow>
             (let (decrypted, d1) = decipher_update_str L decipher encryptedBuffer
              in case decipher_final_str L d1 of
                   Inl e \<Rightarrow> Inl e
                 | Inr s \<Rightarrow> Inr (decrypted @ s)))"

definition decrypt_branch :: "platform \<Rightarrow> buffer \<Rightarrow> jsstring \<Rightarrow> node_error + jsstring" where
  "decrypt_branch L key inputField =
     (if \<not> includes_str 46 inputField then Inl InvalidFormat
      else
        (let parts = split_str 46 inputField in
         if length parts \<noteq> 2 then Inl InvalidFormat
         else
           (let ivString = parts ! 0; encryptedData = parts ! 1 in
            case detect_encoding ivString of
              Inl e \<Rightarrow> Inl e
            | Inr (enc, isBase64Url) \<Rightarrow>
                (case decrypt_try L key ivString encryptedData enc isBase64Url of
                   Inl e \<Rightarrow> Inl (DecryptionFailed e)
                 | Inr s \<Rightarrow> Inr s))))"

subsection \<open>Items and the loop over them\<close>

text \<open>
  An input item is its \<^verbatim>\<open>json\<close> object and the node parameters as they evaluate for
  it. A value is a string, a boolean or any other value. \<open>keepOriginal\<close> and
  \<open>outputFormat\<close> are the two fields of \<^verbatim>\<open>options\<close>, which may be absent:
  \<open>keepOriginal\<close> holds any value, and the output format is one of the three values
  the node's description offers.
\<close>

datatype 'a jvalue = JString jsstring | JBool bool | JOther 'a

record 'a item =
  json :: "jsstring \<rightharpoonup> 'a jvalue"
  operation :: jsstring
  inputField :: jsstring
  outputFieldName :: jsstring
  keepOriginal :: "'a jvalue option"
  outputFormat :: "encoding option"

record 'a output_item =
  out_json :: "jsstring \<rightharpoonup> 'a jvalue"
  pairedItem :: nat

record thrown =
  cause :: node_error
  at_item :: "nat option"

text \<open>
  The assignment \<^verbatim>\<open>obj[name] = v\<close> on a plain object stores the value under the name,
  but for one name: \<^verbatim>\<open>__proto__\<close>, when the object has no property of its own of that
  name, reaches the setter of \<^verbatim>\<open>Object.prototype\<close>, which ignores a string and leaves
  the object as it was. (A \<^verbatim>\<open>json\<close> object that was parsed from text can have such a
  property of its own, and the spread \<^verbatim>\<open>{ ...json }\<close> copies it.)
\<close>

definition set_field ::
  "(jsstring \<rightharpoonup> 'a jvalue) \<Rightarrow> jsstring \<Rightarrow> 'a jvalue \<Rightarrow> (jsstring \<rightharpoonup> 'a jvalue)" where
  "set_field obj name v =
     (if name = lit ''__proto__'' \<and> obj name = None then obj else obj(name \<mapsto> v))"

text \<open>The body of the outer \<^verbatim>\<open>try\<close> for one item: the result string of the chosen
  operation, then the output item. The second component is the position reached in
  the random source.\<close>

definition item_result ::
  "platform \<Rightarrow> (nat \<Rightarrow> byte) \<Rightarrow> buffer \<Rightarrow> nat \<Rightarrow> 'a item \<Rightarrow> (node_error + jsstring) \<times> nat"
where
  "item_result L rnd key pos it =
     (let fmt = (case outputFormat it of None \<Rightarrow> Hex | Some f \<Rightarrow> f) in
      if operation it = lit ''encrypt'' then
        (let (iv, pos') = randomBytes rnd pos 16
         in (encrypt_branch L key iv (inputField it) fmt, pos'))
      else if operation it = lit ''decrypt'' then
        (decrypt_branch L key (inputField it), pos)
      else (Inl (UnknownOperation (operation it)), pos))"

definition try_item ::
  "platform \<Rightarrow> (nat \<Rightarrow> byte) \<Rightarrow> buffer \<Rightarrow> nat \<Rightarrow> 'a item \<Rightarrow> nat
     \<Rightarrow> (node_error + 'a output_item) \<times> nat"
where
  "try_item L rnd key pos it itemIndex =
     (let keep = (keepOriginal it \<noteq> Some (JBool False));
          (res, pos') = item_result L rnd key pos it
      in (case res of
            Inl e \<Rightarrow> Inl e
          | Inr result \<Rightarrow>
              Inr \<lparr>out_json = set_field (if keep then json it else Map.empty)
                                (outputFieldName it) (JString result),
                   pairedItem = itemIndex\<rparr>,
          pos'))"

definition error_item :: "platform \<Rightarrow> node_error \<Rightarrow> nat \<Rightarrow> 'a output_item" where
  "error_item L e itemIndex =
     \<lparr>out_json = [lit ''error'' \<mapsto> JString (message L e)], pairedItem = itemIndex\<rparr>"

fun run_items ::
  "platform \<Rightarrow> (nat \<Rightarrow> byte) \<Rightarrow> bool \<Rightarrow> buffer \<Rightarrow> nat \<Rightarrow> nat \<Rightarrow> 'a item list
     \<Rightarrow> 'a output_item list \<Rightarrow> thrown + 'a output_item list"
where
  "run_items L rnd continueOnFail key itemIndex pos [] returnData = Inr returnData"
| "run_items L rnd continueOnFail key itemIndex pos (it # rest) returnData =
     (case try_item L rnd key pos it itemIndex of
        (Inr out, pos') \<Rightarrow>
          run_items L rnd continueOnFail key (Suc itemIndex) pos' rest (returnData @ [out])
      | (Inl e, pos') \<Rightarrow>
          if continueOnFail then
            run_items L rnd continueOnFail key (Suc itemIndex) pos' rest
              (returnData @ [error_item L e itemIndex])
          else Inl \<lparr>cause = e, at_item = Some itemIndex\<rparr>)"

text \<open>\<^verbatim>\<open>execute\<close>: \<open>env\<close> is \<^verbatim>\<open>process.env.N8N_ENCRYPTION_KEY\<close>, absent or a string;
  \<^verbatim>\<open>!encryptionKey\<close> holds of an absent variable and of the empty string.\<close>

definition execute ::
  "platform \<Rightarrow> (nat \<Rightarrow> byte) \<Rightarrow> bool \<Rightarrow> jsstring option \<Rightarrow> 'a item list
     \<Rightarrow> thrown + 'a output_item list list"
where
  "execute L rnd continueOnFail env items =
     (case env of
        None \<Rightarrow> Inl \<lparr>cause = KeyNotSet, at_item = None\<rparr>
      | Some encryptionKey \<Rightarrow>
          if encryptionKey = [] then Inl \<lparr>cause = KeyNotSet, at_item = None\<rparr>
          else
            (case run_items L rnd continueOnFail (derive_key encryptionKey) 0 0 items [] of
               Inl t \<Rightarrow> Inl t
             | Inr returnData \<Rightarrow> Inr [returnData]))"

section \<open>What the properties are stated with\<close>

text \<open>
  The predicates below are not functions of the node; they say which inputs a property
  is about. \<open>well_formed\<close> holds of a string in which every surrogate code unit is
  half of a pair, which are the strings UTF-8 can carry. \<open>is_ascii\<close> holds of a
  string of code units below 128. \<open>is_lower_hex\<close> is the character class
  \<^verbatim>\<open>[0-9a-f]\<close>. \<open>scalar\<close> holds of the code points that are not surrogates.
\<close>

fun well_formed :: "jsstring \<Rightarrow> bool" where
  "well_formed [] = True"
| "well_formed [c] = (\<not> is_high_surrogate c \<and> \<not> is_low_surrogate c)"
| "well_formed (c # d # cs) =
     (if is_high_surrogate c \<and> is_low_surrogate d then well_formed cs
      else \<not> is_high_surrogate c \<and> \<not> is_low_surrogate c \<and> well_formed (d # cs))"

definition is_ascii :: "jsstring \<Rightarrow> bool" where
  "is_ascii s = list_all (\<lambda>c. unat c < 128) s"

definition is_lower_hex :: "code_unit \<Rightarrow> bool" where
  "is_lower_hex c = ((48 \<le> unat c \<and> unat c \<le> 57) \<or> (97 \<le> unat c \<and> unat c \<le> 102))"

definition scalar :: "nat \<Rightarrow> bool" where
  "scalar n = ((n < 55296 \<or> 57344 \<le> n) \<and> n < 1114112)"

text \<open>What is assumed of the platform's AES-256 block function: on a key of 32 bytes
  it maps a block of 16 bytes to a block of 16 bytes, and the inverse function undoes
  it.\<close>

definition aes_inverse :: "platform \<Rightarrow> bool" where
  "aes_inverse L =
     (\<forall>k b. length k = 32 \<and> length b = 16 \<longrightarrow>
        length (aes_encrypt_block L k b) = 16
        \<and> aes_decrypt_block L k (aes_encrypt_block L k b) = b)"

text \<open>\<^verbatim>\<open>decrypt(encrypt(P, key, F), key)\<close>: the decrypt branch run on the token of the
  encrypt branch.\<close>

definition decrypt_encrypt ::
  "platform \<Rightarrow> buffer \<Rightarrow> buffer \<Rightarrow> jsstring \<Rightarrow> encoding \<Rightarrow> node_error + jsstring" where
  "decrypt_encrypt L key iv plain fmt =
     (case encrypt_branch L key iv plain fmt of
        Inl e \<Rightarrow> Inl e
      | Inr token \<Rightarrow> decrypt_branch L key token)"

subsection \<open>A platform, a random source and a batch to instantiate the properties\<close>

text \<open>The block function of \<open>xor_platform\<close> is not AES: it adds the first half of
  the key to the block. It satisfies \<open>aes_inverse\<close>, which is all the properties
  ask of a block function.\<close>

definition node_message :: "cipher_error \<Rightarrow> jsstring" where
  "node_message e =
     (case e of
        InvalidIV \<Rightarrow> lit ''Invalid initialization vector''
      | InvalidKeyLength \<Rightarrow> lit ''Invalid key length''
      | WrongFinalBlockLength \<Rightarrow> lit ''wrong final block length''
      | BadDecrypt \<Rightarrow> lit ''bad decrypt'')"

definition xor_platform :: platform where
  "xor_platform =
     \<lparr>aes_encrypt_block = (\<lambda>k b. xor_bytes b (take 16 k)),
      aes_decrypt_block = (\<lambda>k b. xor_bytes b (take 16 k)),
      cipher_message = node_message\<rparr>"

definition counter_source :: "nat \<Rightarrow> byte" where
  "counter_source n = of_nat n"

definition example_key :: buffer where
  "example_key = derive_key (lit ''0123456789abcdef0123456789abcdef'')"

definition example_item :: "string \<Rightarrow> string \<Rightarrow> unit item" where
  "example_item op input =
     \<lparr>json = [lit ''id'' \<mapsto> JOther ()], operation = lit op, inputField = lit input,
      outputFieldName = lit ''result'', keepOriginal = None, outputFormat = None\<rparr>"

definition example_batch :: "unit item list" where
  "example_batch =
     [example_item ''encrypt'' ''one'', example_item ''decrypt'' ''abcdef'',
      example_item ''encrypt'' ''three'']"


section \<open>Lemmas\<close>

subsection \<open>Splitting a token at the period\<close>

lemma split_str_not_Nil: "split_str sep s \<noteq> []"
  by (induction s) (auto simp: Let_def)

lemma length_split_str:
  "length (split_str sep s) = Suc (length (filter (\<lambda>c. c = sep) s))"
proof (induction s)
  case Nil
  show ?case by simp
next
  case (Cons c cs)
  have "length (tl (split_str sep cs)) = length (split_str sep cs) - 1" by simp
  with Cons split_str_not_Nil [of sep cs] show ?case
    by (cases "split_str sep cs") (auto simp: Let_def)
qed

lemma split_str_no_sep: "sep \<notin> set s \<Longrightarrow> split_str sep s = [s]"
  by (induction s) (auto simp: Let_def)

lemma split_str_append:
  "sep \<notin> set a \<Longrightarrow> split_str sep (a @ sep # b) = a # split_str sep b"
  by (induction a) (auto simp: Let_def)

lemma split_two_has_sep:
  assumes "length (split_str sep s) = 2"
  shows "sep \<in> set s"
proof (rule ccontr)
  assume "sep \<notin> set s"
  then have "split_str sep s = [s]" by (rule split_str_no_sep)
  with assms show False by simp
qed

subsection \<open>An empty ciphertext segment; the loop over the items\<close>

lemma buffer_from_empty: "buffer_from [] e = []"
  by (cases e) (simp_all add: base64_decode_def)

lemma from_base64url_empty: "from_base64url [] = []"
  by (simp add: from_base64url_def replace_all_def)

lemma decipher_final_after_empty_update:
  assumes "dpending d = []" and "decipher_update_str L d [] = (s, d')"
  shows "decipher_final_str L d' = Inl WrongFinalBlockLength"
  using assms
  by (auto simp: decipher_final_str_def decipher_final_def decipher_update_str_def
      decipher_update_def Let_def split: prod.splits)

lemma decrypt_try_empty:
  "\<exists>e. decrypt_try L key ivString [] enc isBase64Url = Inl e"
proof -
  let ?iv = "if isBase64Url then buffer_from (from_base64url ivString) Base64
             else buffer_from ivString enc"
  have unfold: "decrypt_try L key ivString [] enc isBase64Url =
      (case createDecipheriv key ?iv of
         Inl e \<Rightarrow> Inl e
       | Inr decipher \<Rightarrow>
           (let (decrypted, d1) = decipher_update_str L decipher []
            in case decipher_final_str L d1 of
                 Inl e \<Rightarrow> Inl e
               | Inr s \<Rightarrow> Inr (decrypted @ s)))"
    by (simp add: decrypt_try_def buffer_from_empty from_base64url_empty base64_decode_def
        cong: sum.case_cong)
  show ?thesis
  proof (cases "createDecipheriv key ?iv")
    case (Inl e)
    with unfold show ?thesis by simp
  next
    case (Inr d)
    then have pend: "dpending d = []"
      by (auto simp: createDecipheriv_def split: if_splits)
    obtain s d' where upd: "decipher_update_str L d [] = (s, d')"
      by (cases "decipher_update_str L d []")
    from decipher_final_after_empty_update [OF pend upd] unfold Inr upd
    show ?thesis by simp
  qed
qed

lemma snd_try_item:
  "snd (try_item L rnd key pos it i) =
     (if operation it = lit ''encrypt'' then pos + 16 else pos)"
  by (simp add: try_item_def item_result_def randomBytes_def Let_def split: prod.splits sum.splits)

lemma pairedItem_try_item:
  "fst (try_item L rnd key pos it i) = Inr out \<Longrightarrow> pairedItem out = i"
  by (auto simp: try_item_def Let_def split: prod.splits sum.splits)

lemma run_items_continue:
  "\<exists>outs. run_items L rnd True key idx pos items rd = Inr (rd @ outs)
     \<and> length outs = length items
     \<and> (\<forall>i<length items.
          outs ! i =
            (case fst (try_item L rnd key
                   (pos + 16 * length (filter (\<lambda>it. operation it = lit ''encrypt'') (take i items)))
                   (items ! i) (idx + i)) of
               Inr out \<Rightarrow> out
             | Inl e \<Rightarrow> error_item L e (idx + i)))"
proof (induction items arbitrary: idx pos rd)
  case Nil
  show ?case by simp
next
  case (Cons it rest)
  let ?enc = "\<lambda>it. operation it = lit ''encrypt''"
  let ?t = "try_item L rnd key pos it idx"
  let ?o = "case fst ?t of Inr out \<Rightarrow> out | Inl e \<Rightarrow> error_item L e idx"
  let ?pos' = "snd ?t"
  have step: "run_items L rnd True key idx pos (it # rest) rd =
      run_items L rnd True key (Suc idx) ?pos' rest (rd @ [?o])"
    by (cases ?t) (auto split: sum.splits)
  from Cons.IH [of "Suc idx" ?pos' "rd @ [?o]"]
  obtain outs where run: "run_items L rnd True key (Suc idx) ?pos' rest (rd @ [?o]) = Inr ((rd @ [?o]) @ outs)"
    and len: "length outs = length rest"
    and nth: "\<And>i. i < length rest \<Longrightarrow> outs ! i =
            (case fst (try_item L rnd key
                   (?pos' + 16 * length (filter ?enc (take i rest)))
                   (rest ! i) (Suc idx + i)) of
               Inr out \<Rightarrow> out
             | Inl e \<Rightarrow> error_item L e (Suc idx + i))"
    by blast
  have "(?o # outs) ! i =
            (case fst (try_item L rnd key
                   (pos + 16 * length (filter ?enc (take i (it # rest))))
                   ((it # rest) ! i) (idx + i)) of
               Inr out \<Rightarrow> out
             | Inl e \<Rightarrow> error_item L e (idx + i))" if "i < length (it # rest)" for i
  proof (cases i)
    case 0
    then show ?thesis by (simp cong: sum.case_cong)
  next
    case (Suc j)
    with that have j: "j < length rest" by simp
    have "pos + 16 * length (filter ?enc (take i (it # rest))) =
        ?pos' + 16 * length (filter ?enc (take j rest))"
      by (simp add: Suc snd_try_item)
    with nth [OF j] show ?thesis by (simp add: Suc cong: sum.case_cong)
  qed
  with step run len show ?case
    by (intro exI [of _ "?o # outs"]) simp
qed

subsection \<open>Bytes, code units and hexadecimal\<close>

lemma unat_byte_less: "unat (b :: byte) < 256"
  using unsigned_less [of b, where 'a = nat] by simp

lemma unat_unit_of_nat: "n < 65536 \<Longrightarrow> unat (of_nat n :: code_unit) = n"
  by (simp add: unat_of_nat)

lemma unat_byte_of_nat: "n < 256 \<Longrightarrow> unat (of_nat n :: byte) = n"
  by (simp add: unat_of_nat)

lemma byte_of_nat_unat: "of_nat (unat (b :: byte)) = b"
  by simp

lemma unit_of_nat_unat: "of_nat (unat (c :: code_unit)) = c"
  by simp

lemma unat_hex_digit: "d < 16 \<Longrightarrow> unat (hex_digit d) = (if d < 10 then 48 + d else 87 + d)"
proof -
  assume "d < 16"
  then have "(if d < 10 then 48 + d else 87 + d) < (65536 :: nat)" by simp
  then show ?thesis unfolding hex_digit_def by (rule unat_unit_of_nat)
qed

lemma low_byte_small: "unat c < 256 \<Longrightarrow> low_byte c = unat c"
  by (simp add: low_byte_def)

lemma low_byte_hex_digit: "d < 16 \<Longrightarrow> low_byte (hex_digit d) = (if d < 10 then 48 + d else 87 + d)"
  by (subst low_byte_small) (simp_all add: unat_hex_digit)

lemma unhex_hex_digit: "d < 16 \<Longrightarrow> unhex (hex_digit d) = Some d"
  by (simp add: unhex_def low_byte_hex_digit Let_def)

lemma hex_decode_encode_byte:
  "hex_decode (hex_digit (unat b div 16) # hex_digit (unat b mod 16) # cs) = b # hex_decode cs"
proof -
  have "unat b div 16 < 16" using unat_byte_less [of b] by simp
  then show ?thesis by (simp add: unhex_hex_digit)
qed

lemma hex_decode_encode_append: "hex_decode (hex_encode bs @ cs) = bs @ hex_decode cs"
  by (induction bs) (simp_all add: hex_encode_def hex_decode_encode_byte del: hex_decode.simps)

lemma hex_decode_encode: "hex_decode (hex_encode bs) = bs"
  using hex_decode_encode_append [of bs "[]"] by simp

lemma hex_encode_append: "hex_encode (a @ b) = hex_encode a @ hex_encode b"
  by (simp add: hex_encode_def)

lemma length_hex_encode: "length (hex_encode bs) = 2 * length bs"
  by (induction bs) (simp_all add: hex_encode_def)

lemma hex_digit_lower: "d < 16 \<Longrightarrow> is_lower_hex (hex_digit d)"
  by (simp add: is_lower_hex_def unat_hex_digit)

lemma hex_encode_lower: "list_all is_lower_hex (hex_encode bs)"
proof (induction bs)
  case Nil
  show ?case by (simp add: hex_encode_def)
next
  case (Cons b bs)
  have "unat b div 16 < 16" using unat_byte_less [of b] by simp
  with Cons show ?case by (simp add: hex_encode_def hex_digit_lower)
qed

lemma is_lower_hex_is_hex: "is_lower_hex c \<Longrightarrow> is_hex_char c"
  by (auto simp: is_lower_hex_def is_hex_char_def Let_def)

lemma is_lower_hex_not_dot: "is_lower_hex c \<Longrightarrow> c \<noteq> 46"
  by (auto simp: is_lower_hex_def)

subsection \<open>Base64\<close>

lemma sextets_bound: "list_all (\<lambda>n. n < 64) (sextets bs)"
proof (induction bs rule: sextets.induct)
  case (1 a b c r)
  have "unat a < 256" "unat b < 256" "unat c < 256" by (rule unat_byte_less)+
  then have "unat a div 4 < 64" "unat a mod 4 * 16 + unat b div 16 < 64"
    "unat b mod 16 * 4 + unat c div 64 < 64" by arith+
  with 1 show ?case by simp
next
  case (2 a b)
  have "unat a < 256" "unat b < 256" by (rule unat_byte_less)+
  then have "unat a div 4 < 64" "unat a mod 4 * 16 + unat b div 16 < 64"
    "unat b mod 16 * 4 < 64" by arith+
  then show ?case by simp
next
  case (3 a)
  have "unat a < 256" by (rule unat_byte_less)
  then have "unat a div 4 < 64" "unat a mod 4 * 16 < 64" by arith+
  then show ?case by simp
next
  case 4
  show ?case by simp
qed

lemma div_digit: "y < n \<Longrightarrow> (x * n + y) div n = (x::nat)"
  by simp

lemma mod_digit: "y < n \<Longrightarrow> (x * n + y) mod n = (y::nat)"
  by simp

lemma regroup1: "of_nat (unat a div 4 * 4 + (unat a mod 4 * 16 + unat b div 16) div 16) = a"
  for a b :: byte
proof -
  have "unat b < 256" by (rule unat_byte_less)
  then have "unat b div 16 < 16" by simp
  then have "(unat a mod 4 * 16 + unat b div 16) div 16 = unat a mod 4" by (rule div_digit)
  then have eq: "unat a div 4 * 4 + (unat a mod 4 * 16 + unat b div 16) div 16 = unat a"
    by simp
  show ?thesis unfolding eq by (rule byte_of_nat_unat)
qed

lemma regroup2:
  "of_nat ((unat a mod 4 * 16 + unat b div 16) mod 16 * 16 + (unat b mod 16 * 4 + x) div 4) = b"
  if "x < 4" for a b :: byte
proof -
  have "unat b < 256" by (rule unat_byte_less)
  then have "unat b div 16 < 16" by simp
  then have "(unat a mod 4 * 16 + unat b div 16) mod 16 = unat b div 16" by (rule mod_digit)
  moreover from that have "(unat b mod 16 * 4 + x) div 4 = unat b mod 16" by (rule div_digit)
  ultimately have eq:
    "(unat a mod 4 * 16 + unat b div 16) mod 16 * 16 + (unat b mod 16 * 4 + x) div 4 = unat b"
    by simp
  show ?thesis unfolding eq by (rule byte_of_nat_unat)
qed

lemma regroup2_last:
  "of_nat ((unat a mod 4 * 16 + unat b div 16) mod 16 * 16 + unat b mod 16 * 4 div 4) = b"
  for a b :: byte
proof -
  have "unat b < 256" by (rule unat_byte_less)
  then have "unat b div 16 < 16" by simp
  then have "(unat a mod 4 * 16 + unat b div 16) mod 16 = unat b div 16" by (rule mod_digit)
  then have eq:
    "(unat a mod 4 * 16 + unat b div 16) mod 16 * 16 + unat b mod 16 * 4 div 4 = unat b"
    by simp
  show ?thesis unfolding eq by (rule byte_of_nat_unat)
qed

lemma regroup3: "of_nat ((unat b mod 16 * 4 + unat c div 64) mod 4 * 64 + unat c mod 64) = c"
  for b c :: byte
proof -
  have "unat c < 256" by (rule unat_byte_less)
  then have "unat c div 64 < 4" by simp
  then have "(unat b mod 16 * 4 + unat c div 64) mod 4 = unat c div 64" by (rule mod_digit)
  then have eq: "(unat b mod 16 * 4 + unat c div 64) mod 4 * 64 + unat c mod 64 = unat c"
    by simp
  show ?thesis unfolding eq by (rule byte_of_nat_unat)
qed

lemma regroup1_last: "of_nat (unat a div 4 * 4 + unat a mod 4 * 16 div 16) = a"
  for a :: byte
proof -
  have eq: "unat a div 4 * 4 + unat a mod 4 * 16 div 16 = unat a" by simp
  show ?thesis unfolding eq by (rule byte_of_nat_unat)
qed

lemma unsextets_sextets: "unsextets (sextets bs) = bs"
proof (induction bs rule: sextets.induct)
  case (1 a b c r)
  have "unat c < 256" by (rule unat_byte_less)
  then have "unat c div 64 < 4" by simp
  note r2 = regroup2 [OF this]
  show ?case
    by (simp only: sextets.simps unsextets.simps append_Cons append_Nil regroup1 r2 regroup3 1)
next
  case (2 a b)
  show ?case
    by (simp only: sextets.simps unsextets.simps regroup1 regroup2_last)
next
  case (3 a)
  show ?case
    by (simp only: sextets.simps unsextets.simps regroup1_last)
next
  case 4
  show ?case by simp
qed

lemma length_sextets: "length (sextets bs) = (4 * length bs + 2) div 3"
  by (induction bs rule: sextets.induct) simp_all

lemma sextets_append: "3 dvd length xs \<Longrightarrow> sextets (xs @ ys) = sextets xs @ sextets ys"
proof (induction xs rule: sextets.induct)
  case (1 a b c r)
  from "1.prems" have "3 dvd length r" by simp presburger
  with "1.IH" show ?case by simp
next
  case (2 a b)
  then have False by (simp add: numeral_2_eq_2 [symmetric])
  then show ?case ..
next
  case (3 a)
  then show ?case by simp
next
  case 4
  show ?case by simp
qed

lemma base64_encode_append:
  "3 dvd length xs \<Longrightarrow> base64_encode (xs @ ys) = base64_encode xs @ base64_encode ys"
  by (simp add: base64_encode_def sextets_append mod_add_left_eq [symmetric] dvd_eq_mod_eq_0)

lemma unat_b64_char:
  "n < 64 \<Longrightarrow> unat (b64_char n) =
     (if n < 26 then 65 + n else if n < 52 then 71 + n
      else if n < 62 then n - 4 else if n = 62 then 43 else 47)"
proof -
  assume "n < 64"
  then have "(if n < 26 then 65 + n else if n < 52 then 71 + n
      else if n < 62 then n - 4 else if n = 62 then 43 else 47) < (65536 :: nat)" by auto
  then show ?thesis unfolding b64_char_def by (rule unat_unit_of_nat)
qed

lemma unat_b64url_char:
  "n < 64 \<Longrightarrow> unat (b64url_char n) =
     (if n < 26 then 65 + n else if n < 52 then 71 + n
      else if n < 62 then n - 4 else if n = 62 then 45 else 95)"
proof -
  assume "n < 64"
  then have "(if n < 26 then 65 + n else if n < 52 then 71 + n
      else if n < 62 then n - 4 else if n = 62 then 45 else 95) < (65536 :: nat)" by auto
  then show ?thesis unfolding b64url_char_def by (rule unat_unit_of_nat)
qed

lemma low_byte_b64_char: "n < 64 \<Longrightarrow> low_byte (b64_char n) = unat (b64_char n)"
  by (rule low_byte_small) (auto simp: unat_b64_char)

lemma unbase64_b64_char: "n < 64 \<Longrightarrow> unbase64 (low_byte (b64_char n)) = Some n"
  by (auto simp: unbase64_def low_byte_b64_char unat_b64_char)

lemma low_byte_b64_char_not_pad: "n < 64 \<Longrightarrow> low_byte (b64_char n) \<noteq> 61"
  by (auto simp: low_byte_b64_char unat_b64_char)

lemma low_byte_pad: "low_byte 61 = 61"
  by (simp add: low_byte_def)

lemma b64_char_not_pad: "n < 64 \<Longrightarrow> b64_char n \<noteq> 61"
proof
  assume "n < 64" "b64_char n = 61"
  then have "unat (b64_char n) = 61" by simp
  with \<open>n < 64\<close> show False by (auto simp: unat_b64_char split: if_splits)
qed

lemma b64_char_not_dot: "n < 64 \<Longrightarrow> b64_char n \<noteq> 46"
proof
  assume "n < 64" "b64_char n = 46"
  then have "unat (b64_char n) = 46" by simp
  with \<open>n < 64\<close> show False by (auto simp: unat_b64_char split: if_splits)
qed

lemma is_b64url_char_b64url_char: "n < 64 \<Longrightarrow> is_b64url_char (b64url_char n)"
  by (auto simp: is_b64url_char_def unat_b64url_char Let_def)

lemma unit_eq_iff_unat: "(c = d) = (unat c = unat d)" for c d :: code_unit
  by (simp add: word_unat_eq_iff)

lemma is_b64url_char_not_punct: "is_b64url_char c \<Longrightarrow> \<not> is_b64_punct c"
  by (auto simp: is_b64url_char_def is_b64_punct_def Let_def)

lemma is_b64url_char_not_dot: "is_b64url_char c \<Longrightarrow> c \<noteq> 46"
  by (auto simp: is_b64url_char_def Let_def)

lemma map_filter_unbase64:
  "list_all (\<lambda>n. n < 64) ss \<Longrightarrow>
     List.map_filter unbase64 (map low_byte (map b64_char ss)) = ss"
  by (induction ss) (simp_all add: List.map_filter_simps unbase64_b64_char)

lemma takeWhile_not_pad:
  "list_all (\<lambda>n. n < 64) ss \<Longrightarrow>
     takeWhile (\<lambda>b. b \<noteq> 61) (map low_byte (map b64_char ss @ replicate k 61))
       = map low_byte (map b64_char ss)"
  by (induction ss) (simp_all add: low_byte_b64_char_not_pad low_byte_pad takeWhile_replicate)

lemma base64_decode_digits:
  "list_all (\<lambda>n. n < 64) ss \<Longrightarrow>
     base64_decode (map b64_char ss @ replicate k 61) = unsextets ss"
  unfolding base64_decode_def by (simp only: takeWhile_not_pad map_filter_unbase64)

lemma base64_decode_encode: "base64_decode (base64_encode bs) = bs"
  by (simp add: base64_encode_def base64_decode_digits sextets_bound unsextets_sextets)

lemma replace_all_single: "replace_all c [d] s = map (\<lambda>x. if x = c then d else x) s"
  by (induction s) (simp_all add: replace_all_def)

lemma replace_all_none: "replace_all c [] s = filter (\<lambda>x. x \<noteq> c) s"
  by (induction s) (simp_all add: replace_all_def)

lemma b64url_of_b64:
  assumes "n < 64"
  shows "(let x = b64_char n; y = (if x = 43 then 45 else x) in if y = 47 then 95 else y)
     = b64url_char n"
proof -
  have "unat (let x = b64_char n; y = (if x = 43 then 45 else x) in if y = 47 then 95 else y)
     = unat (b64url_char n)"
    using assms
    by (auto simp: Let_def unit_eq_iff_unat unat_b64_char unat_b64url_char)
  then show ?thesis by (simp add: word_unat_eq_iff)
qed

lemma b64_of_b64url:
  assumes "n < 64"
  shows "(let x = b64url_char n; y = (if x = 45 then 43 else x) in if y = 95 then 47 else y)
     = b64_char n"
proof -
  have "unat (let x = b64url_char n; y = (if x = 45 then 43 else x) in if y = 95 then 47 else y)
     = unat (b64_char n)"
    using assms
    by (auto simp: Let_def unit_eq_iff_unat unat_b64_char unat_b64url_char)
  then show ?thesis by (simp add: word_unat_eq_iff)
qed

lemma b64url_char_not_pad: "n < 64 \<Longrightarrow> b64url_char n \<noteq> 61"
proof
  assume "n < 64" "b64url_char n = 61"
  then have "unat (b64url_char n) = 61" by simp
  with \<open>n < 64\<close> show False by (auto simp: unat_b64url_char split: if_splits)
qed

lemma to_base64url_digits:
  "list_all (\<lambda>n. n < 64) ss \<Longrightarrow>
     to_base64url (map b64_char ss @ replicate k 61) = map b64url_char ss"
proof (induction ss)
  case Nil
  show ?case
    by (simp add: to_base64url_def replace_all_single replace_all_none)
next
  case (Cons n ss)
  then have n: "n < 64" by simp
  from b64url_of_b64 [OF n] b64url_char_not_pad [OF n] Cons show ?case
    by (simp add: to_base64url_def replace_all_single replace_all_none Let_def)
qed

lemma to_base64url_encode: "to_base64url (base64_encode bs) = base64url_encode bs"
  by (simp add: base64_encode_def base64url_encode_def to_base64url_digits sextets_bound)

lemma from_base64url_digits:
  "list_all (\<lambda>n. n < 64) ss \<Longrightarrow> from_base64url (map b64url_char ss) = map b64_char ss"
proof (induction ss)
  case Nil
  show ?case by (simp add: from_base64url_def replace_all_single)
next
  case (Cons n ss)
  then have n: "n < 64" by simp
  from b64_of_b64url [OF n] Cons show ?case
    by (simp add: from_base64url_def replace_all_single Let_def)
qed

lemma base64url_round_trip:
  "base64_decode (from_base64url (to_base64url (base64_encode bs))) = bs"
proof -
  have "from_base64url (to_base64url (base64_encode bs)) = map b64_char (sextets bs) @ replicate 0 61"
    by (simp add: to_base64url_encode base64url_encode_def from_base64url_digits sextets_bound)
  then show ?thesis
    by (simp only: base64_decode_digits [OF sextets_bound] unsextets_sextets)
qed

subsection \<open>UTF-8: the decoder on the bytes of one code point\<close>

lemma utf8_write_append:
  "utf8_write st (a @ b) =
     (fst (utf8_write st a) @ fst (utf8_write (snd (utf8_write st a)) b),
      snd (utf8_write (snd (utf8_write st a)) b))"
  by (induction a arbitrary: st) (simp_all split: prod.splits)

lemma utf8_write_Cons:
  "utf8_write st (b # bs) =
     (fst (utf8_step st b) @ fst (utf8_write (snd (utf8_step st b)) bs),
      snd (utf8_write (snd (utf8_step st b)) bs))"
  by (simp split: prod.splits)

lemma step_lead:
  "b < 256 \<Longrightarrow> utf8_step utf8_init (of_nat b) = utf8_lead b"
  by (simp add: utf8_step_def utf8_init_def unat_byte_of_nat)

lemma step_cont:
  assumes "b < 256" "needed st \<noteq> 0" "lower st \<le> b" "b \<le> upper st"
  shows "utf8_step st (of_nat b) =
     (if needed st = 1 then (emit_cp (cp st * 64 + (b - 128)), utf8_init)
      else ([], \<lparr>cp = cp st * 64 + (b - 128), needed = needed st - 1, lower = 128, upper = 191\<rparr>))"
  using assms by (simp add: utf8_step_def unat_byte_of_nat Let_def)

lemma decode1:
  assumes "b1 < 128"
  shows "utf8_write utf8_init (of_nat b1 # rest) =
     (of_nat b1 # fst (utf8_write utf8_init rest), snd (utf8_write utf8_init rest))"
proof -
  from assms have "b1 < 256" by simp
  from step_lead [OF this] assms
  have s1: "utf8_step utf8_init (of_nat b1) = ([of_nat b1], utf8_init)"
    by (simp add: utf8_lead_def)
  show ?thesis
    by (simp only: utf8_write_Cons [of _ "of_nat b1"] s1 fst_conv snd_conv append_Cons append_Nil)
qed

lemma decode2:
  assumes "194 \<le> b1" "b1 \<le> 223" "128 \<le> b2" "b2 \<le> 191"
  shows "utf8_write utf8_init (of_nat b1 # of_nat b2 # rest) =
     (emit_cp ((b1 - 192) * 64 + (b2 - 128)) @ fst (utf8_write utf8_init rest),
      snd (utf8_write utf8_init rest))"
proof -
  from assms have lt: "b1 < 256" "b2 < 256" by simp_all
  have s1: "utf8_step utf8_init (of_nat b1) =
      ([], \<lparr>cp = b1 - 192, needed = 1, lower = 128, upper = 191\<rparr>)"
    using assms by (simp add: step_lead [OF lt(1)] utf8_lead_def)
  have s2: "utf8_step \<lparr>cp = b1 - 192, needed = 1, lower = 128, upper = 191\<rparr> (of_nat b2) =
      (emit_cp ((b1 - 192) * 64 + (b2 - 128)), utf8_init)"
    using assms by (subst step_cont [OF lt(2)]) simp_all
  show ?thesis
    by (simp only: utf8_write_Cons [of _ "of_nat b1"] utf8_write_Cons [of _ "of_nat b2"]
        s1 s2 fst_conv snd_conv append_Nil)
qed

lemma decode3:
  assumes "224 \<le> b1" "b1 \<le> 239" "128 \<le> b2" "b2 \<le> 191" "128 \<le> b3" "b3 \<le> 191"
    and "b1 = 224 \<Longrightarrow> 160 \<le> b2" and "b1 = 237 \<Longrightarrow> b2 \<le> 159"
  shows "utf8_write utf8_init (of_nat b1 # of_nat b2 # of_nat b3 # rest) =
     (emit_cp (((b1 - 224) * 64 + (b2 - 128)) * 64 + (b3 - 128)) @ fst (utf8_write utf8_init rest),
      snd (utf8_write utf8_init rest))"
proof -
  from assms have lt: "b1 < 256" "b2 < 256" "b3 < 256" by simp_all
  let ?s1 = "\<lparr>cp = b1 - 224, needed = 2,
              lower = (if b1 = 224 then 160 else 128),
              upper = (if b1 = 237 then 159 else 191)\<rparr>"
  let ?s2 = "\<lparr>cp = (b1 - 224) * 64 + (b2 - 128), needed = 1, lower = 128, upper = 191\<rparr>"
  have s1: "utf8_step utf8_init (of_nat b1) = ([], ?s1)"
    using assms(1,2) by (simp add: step_lead [OF lt(1)] utf8_lead_def)
  have s2: "utf8_step ?s1 (of_nat b2) = ([], ?s2)"
    using assms by (subst step_cont [OF lt(2)]) auto
  have s3: "utf8_step ?s2 (of_nat b3) =
      (emit_cp (((b1 - 224) * 64 + (b2 - 128)) * 64 + (b3 - 128)), utf8_init)"
    using assms by (subst step_cont [OF lt(3)]) simp_all
  show ?thesis
    by (simp only: utf8_write_Cons [of _ "of_nat b1"] utf8_write_Cons [of _ "of_nat b2"]
        utf8_write_Cons [of _ "of_nat b3"] s1 s2 s3 fst_conv snd_conv append_Nil)
qed

lemma decode4:
  assumes "240 \<le> b1" "b1 \<le> 244" "128 \<le> b2" "b2 \<le> 191" "128 \<le> b3" "b3 \<le> 191"
    "128 \<le> b4" "b4 \<le> 191"
    and "b1 = 240 \<Longrightarrow> 144 \<le> b2" and "b1 = 244 \<Longrightarrow> b2 \<le> 143"
  shows "utf8_write utf8_init (of_nat b1 # of_nat b2 # of_nat b3 # of_nat b4 # rest) =
     (emit_cp ((((b1 - 240) * 64 + (b2 - 128)) * 64 + (b3 - 128)) * 64 + (b4 - 128))
        @ fst (utf8_write utf8_init rest),
      snd (utf8_write utf8_init rest))"
proof -
  from assms have lt: "b1 < 256" "b2 < 256" "b3 < 256" "b4 < 256" by simp_all
  let ?s1 = "\<lparr>cp = b1 - 240, needed = 3,
              lower = (if b1 = 240 then 144 else 128),
              upper = (if b1 = 244 then 143 else 191)\<rparr>"
  let ?s2 = "\<lparr>cp = (b1 - 240) * 64 + (b2 - 128), needed = 2, lower = 128, upper = 191\<rparr>"
  let ?s3 = "\<lparr>cp = ((b1 - 240) * 64 + (b2 - 128)) * 64 + (b3 - 128), needed = 1,
              lower = 128, upper = 191\<rparr>"
  have s1: "utf8_step utf8_init (of_nat b1) = ([], ?s1)"
    using assms(1,2) by (simp add: step_lead [OF lt(1)] utf8_lead_def)
  have s2: "utf8_step ?s1 (of_nat b2) = ([], ?s2)"
    using assms by (subst step_cont [OF lt(2)]) auto
  have s3: "utf8_step ?s2 (of_nat b3) = ([], ?s3)"
    using assms by (subst step_cont [OF lt(3)]) simp_all
  have s4: "utf8_step ?s3 (of_nat b4) =
      (emit_cp ((((b1 - 240) * 64 + (b2 - 128)) * 64 + (b3 - 128)) * 64 + (b4 - 128)), utf8_init)"
    using assms by (subst step_cont [OF lt(4)]) simp_all
  show ?thesis
    by (simp only: utf8_write_Cons [of _ "of_nat b1"] utf8_write_Cons [of _ "of_nat b2"]
        utf8_write_Cons [of _ "of_nat b3"] utf8_write_Cons [of _ "of_nat b4"]
        s1 s2 s3 s4 fst_conv snd_conv append_Nil)
qed

lemma div_4096: "(n::nat) div 4096 = n div 64 div 64"
  by (simp add: div_mult2_eq [symmetric])

lemma div_262144: "(n::nat) div 262144 = n div 64 div 64 div 64"
  by (simp add: div_mult2_eq [symmetric])

lemma utf8_write_bytes:
  assumes "scalar n"
  shows "utf8_write utf8_init (utf8_bytes n @ rest) =
     (emit_cp n @ fst (utf8_write utf8_init rest), snd (utf8_write utf8_init rest))"
proof -
  consider "n < 128" | "128 \<le> n" "n < 2048" | "2048 \<le> n" "n < 65536"
    | "65536 \<le> n" by linarith
  then show ?thesis
  proof cases
    case 1
    then have "emit_cp n = [of_nat n]" by (simp add: emit_cp_def)
    with 1 decode1 [OF 1, of rest] show ?thesis by (simp add: utf8_bytes_def)
  next
    case 2
    let ?q = "n div 64"
    from 2 have q: "2 \<le> ?q" "?q \<le> 31" by simp_all
    have r: "n mod 64 < 64" by simp
    have "utf8_write utf8_init (of_nat (192 + ?q) # of_nat (128 + n mod 64) # rest) =
        (emit_cp ((192 + ?q - 192) * 64 + (128 + n mod 64 - 128)) @ fst (utf8_write utf8_init rest),
         snd (utf8_write utf8_init rest))"
      using q r by (intro decode2) simp_all
    moreover have "(192 + ?q - 192) * 64 + (128 + n mod 64 - 128) = n" by simp
    ultimately show ?thesis using 2 by (simp add: utf8_bytes_def)
  next
    case 3
    let ?q = "n div 64"
    let ?a = "?q div 64"
    let ?b = "?q mod 64"
    let ?c = "n mod 64"
    from 3 have q: "32 \<le> ?q" "?q < 1024" by simp_all
    then have a: "?a \<le> 15" by simp
    have b: "?b < 64" and c: "?c < 64" by simp_all
    have low: "160 \<le> 128 + ?b" if "224 + ?a = 224"
    proof -
      from that have "?a = 0" by simp
      then have "?q < 64" by (simp add: div_eq_0_iff)
      then have "?b = ?q" by simp
      with q show ?thesis by simp
    qed
    have high: "128 + ?b \<le> 159" if "224 + ?a = 237"
    proof -
      from that have a13: "?a = 13" by simp
      have "?q = ?a * 64 + ?b" by simp
      with a13 have qb: "?q = 832 + ?b" by simp
      from assms 3 have "n < 55296 \<or> 57344 \<le> n" by (simp add: scalar_def)
      then have "?q < 864 \<or> 896 \<le> ?q" by auto
      with qb b have "?b < 32" by linarith
      then show ?thesis by simp
    qed
    have "utf8_write utf8_init
          (of_nat (224 + ?a) # of_nat (128 + ?b) # of_nat (128 + ?c) # rest) =
        (emit_cp (((224 + ?a - 224) * 64 + (128 + ?b - 128)) * 64 + (128 + ?c - 128))
           @ fst (utf8_write utf8_init rest),
         snd (utf8_write utf8_init rest))"
      using a b c low high by (intro decode3) simp_all
    moreover have "((224 + ?a - 224) * 64 + (128 + ?b - 128)) * 64 + (128 + ?c - 128) = n"
      by simp
    ultimately show ?thesis using 3 by (simp add: utf8_bytes_def div_4096)
  next
    case 4
    let ?q = "n div 64"
    let ?p = "?q div 64"
    let ?a = "?p div 64"
    let ?b = "?p mod 64"
    let ?c = "?q mod 64"
    let ?d = "n mod 64"
    from assms have lt: "n < 1114112" by (simp add: scalar_def)
    from 4 lt have q: "1024 \<le> ?q" "?q < 17408" by simp_all
    then have p: "16 \<le> ?p" "?p < 272" by simp_all
    then have a: "?a \<le> 4" by simp
    have b: "?b < 64" and c: "?c < 64" and d: "?d < 64" by simp_all
    have pab: "?p = ?a * 64 + ?b" by simp
    have low: "144 \<le> 128 + ?b" if "240 + ?a = 240"
    proof -
      from that have "?a = 0" by simp
      with pab have "?b = ?p" by simp
      with p show ?thesis by simp
    qed
    have high: "128 + ?b \<le> 143" if "240 + ?a = 244"
    proof -
      from that have "?a = 4" by simp
      with pab have "?p = 256 + ?b" by simp
      with p show ?thesis by simp
    qed
    have "utf8_write utf8_init
          (of_nat (240 + ?a) # of_nat (128 + ?b) # of_nat (128 + ?c) # of_nat (128 + ?d) # rest) =
        (emit_cp ((((240 + ?a - 240) * 64 + (128 + ?b - 128)) * 64 + (128 + ?c - 128)) * 64
              + (128 + ?d - 128))
           @ fst (utf8_write utf8_init rest),
         snd (utf8_write utf8_init rest))"
      using a b c d low high by (intro decode4) simp_all
    moreover have "(((240 + ?a - 240) * 64 + (128 + ?b - 128)) * 64 + (128 + ?c - 128)) * 64
              + (128 + ?d - 128) = n"
      by simp
    ultimately show ?thesis using 4 by (simp add: utf8_bytes_def div_4096 div_262144)
  qed
qed

subsection \<open>UTF-8: a string and its bytes\<close>

lemma unat_unit_less: "unat (c :: code_unit) < 65536"
  using unsigned_less [of c, where 'a = nat] by simp

lemma emit_unit:
  assumes "\<not> is_high_surrogate c" "\<not> is_low_surrogate c"
  shows "scalar (unit_code_point c)" and "emit_cp (unit_code_point c) = [c]"
proof -
  from assms have u: "unit_code_point c = unat c" by (simp add: unit_code_point_def)
  from assms unat_unit_less [of c] show "scalar (unit_code_point c)"
    unfolding u by (auto simp: scalar_def is_high_surrogate_def is_low_surrogate_def)
  from unat_unit_less [of c] show "emit_cp (unit_code_point c) = [c]"
    unfolding u by (simp add: emit_cp_def)
qed

lemma emit_pair:
  assumes "is_high_surrogate c" "is_low_surrogate d"
  defines "n \<equiv> 65536 + (unat c - 55296) * 1024 + (unat d - 56320)"
  shows "scalar n" and "emit_cp n = [c, d]"
proof -
  let ?x = "unat c - 55296"
  let ?y = "unat d - 56320"
  from assms have x: "?x < 1024" and y: "?y < 1024"
    and c: "55296 + ?x = unat c" and d: "56320 + ?y = unat d"
    by (auto simp: is_high_surrogate_def is_low_surrogate_def)
  from x y show "scalar n" by (simp add: scalar_def n_def)
  have n: "n - 65536 = ?x * 1024 + ?y" by (simp add: n_def)
  have "(n - 65536) div 1024 = ?x" unfolding n using y by (rule div_digit)
  moreover have "(n - 65536) mod 1024 = ?y" unfolding n using y by (rule mod_digit)
  moreover have "\<not> n < 65536" by (simp add: n_def)
  ultimately show "emit_cp n = [c, d]"
    by (simp only: emit_cp_def if_False c d unit_of_nat_unat)
qed

lemma utf8_write_encode:
  "well_formed s \<Longrightarrow> utf8_write utf8_init (utf8_encode s) = (s, utf8_init)"
proof (induction s rule: utf8_encode.induct)
  case 1
  show ?case by simp
next
  case (2 c)
  then have ns: "\<not> is_high_surrogate c" "\<not> is_low_surrogate c" by simp_all
  from utf8_write_bytes [OF emit_unit(1) [OF ns], of "[]"] emit_unit(2) [OF ns]
  show ?case by simp
next
  case (3 c d cs)
  show ?case
  proof (cases "is_high_surrogate c \<and> is_low_surrogate d")
    case True
    then have hl: "is_high_surrogate c" "is_low_surrogate d" by simp_all
    from "3.prems" True have "well_formed cs" by simp
    with "3.IH"(1) True have ih: "utf8_write utf8_init (utf8_encode cs) = (cs, utf8_init)"
      by simp
    have enc: "utf8_encode (c # d # cs) =
        utf8_bytes (65536 + (unat c - 55296) * 1024 + (unat d - 56320)) @ utf8_encode cs"
      by (subst utf8_encode.simps(3)) (simp only: hl simp_thms if_True)
    from utf8_write_bytes [OF emit_pair(1) [OF hl], of "utf8_encode cs"] emit_pair(2) [OF hl] ih
    show ?thesis unfolding enc by simp
  next
    case False
    with "3.prems" have ns: "\<not> is_high_surrogate c" "\<not> is_low_surrogate c"
      and wf: "well_formed (d # cs)" by simp_all
    with "3.IH"(2) False have ih: "utf8_write utf8_init (utf8_encode (d # cs)) = (d # cs, utf8_init)"
      by simp
    have enc: "utf8_encode (c # d # cs) = utf8_bytes (unit_code_point c) @ utf8_encode (d # cs)"
      by (subst utf8_encode.simps(3)) (simp only: False if_False)
    from utf8_write_bytes [OF emit_unit(1) [OF ns], of "utf8_encode (d # cs)"]
      emit_unit(2) [OF ns] ih
    show ?thesis unfolding enc by simp
  qed
qed

lemma utf8_round_trip: "well_formed s \<Longrightarrow> utf8_end utf8_init (utf8_encode s) = s"
proof -
  have "needed utf8_init = 0" by (simp add: utf8_init_def)
  then show "well_formed s \<Longrightarrow> utf8_end utf8_init (utf8_encode s) = s"
    by (simp add: utf8_end_def utf8_write_encode)
qed

lemma utf8_end_split:
  "fst (utf8_write utf8_init a) @ utf8_end (snd (utf8_write utf8_init a)) b
     = utf8_end utf8_init (a @ b)"
  by (simp add: utf8_end_def utf8_write_append split: prod.splits)

lemma lone_surrogate: "utf8_end utf8_init (utf8_encode [55296]) = [65533]"
  by (simp add: utf8_end_def unit_code_point_def is_high_surrogate_def utf8_bytes_def
      utf8_step_def utf8_lead_def utf8_init_def emit_cp_def Let_def)

subsection \<open>Cipher-block chaining and the padding\<close>

lemma length_xor_bytes: "length (xor_bytes a b) = min (length a) (length b)"
  by (simp add: xor_bytes_def)

lemma xor_bytes_cancel: "length a = length b \<Longrightarrow> xor_bytes (xor_bytes a b) b = a"
  unfolding xor_bytes_def
  by (induction a b rule: list_induct2) (simp_all add: xor.assoc)

lemma length_cbc_enc:
  assumes "\<And>b. length b = 16 \<Longrightarrow> length (E b) = 16"
  shows "length prev = 16 \<Longrightarrow> 16 * n \<le> length data \<Longrightarrow> length (cbc_enc E n prev data) = 16 * n"
proof (induction n arbitrary: prev data)
  case 0
  show ?case by simp
next
  case (Suc n)
  let ?c = "E (xor_bytes (take 16 data) prev)"
  from Suc.prems have "length (xor_bytes (take 16 data) prev) = 16"
    by (simp add: length_xor_bytes)
  then have c: "length ?c = 16" by (rule assms)
  from Suc.prems have "16 * n \<le> length (drop 16 data)" by simp
  from Suc.IH [OF c this] c show ?case by (simp add: Let_def)
qed

lemma length_cbc_enc_chain:
  assumes "\<And>b. length b = 16 \<Longrightarrow> length (E b) = 16"
  shows "length prev = 16 \<Longrightarrow> 16 * n \<le> length data \<Longrightarrow> length (cbc_enc_chain E n prev data) = 16"
proof (induction n arbitrary: prev data)
  case 0
  then show ?case by simp
next
  case (Suc n)
  let ?c = "E (xor_bytes (take 16 data) prev)"
  from Suc.prems have "length (xor_bytes (take 16 data) prev) = 16"
    by (simp add: length_xor_bytes)
  then have c: "length ?c = 16" by (rule assms)
  from Suc.prems have "16 * n \<le> length (drop 16 data)" by simp
  from Suc.IH [OF c this] show ?case by simp
qed

lemma cbc_dec_enc:
  assumes len: "\<And>b. length b = 16 \<Longrightarrow> length (E b) = 16"
    and inv: "\<And>b. length b = 16 \<Longrightarrow> D (E b) = b"
  shows "length prev = 16 \<Longrightarrow> 16 * n \<le> length data \<Longrightarrow>
     cbc_dec D n prev (cbc_enc E n prev data @ rest) = take (16 * n) data
     \<and> cbc_dec_chain n prev (cbc_enc E n prev data @ rest) = cbc_enc_chain E n prev data"
proof (induction n arbitrary: prev data)
  case 0
  show ?case by simp
next
  case (Suc n)
  let ?x = "xor_bytes (take 16 data) prev"
  let ?c = "E ?x"
  from Suc.prems have x: "length ?x = 16" by (simp add: length_xor_bytes)
  then have c: "length ?c = 16" by (rule len)
  from Suc.prems have d: "16 * n \<le> length (drop 16 data)" by simp
  have tk: "take 16 (?c @ cbc_enc E n ?c (drop 16 data) @ rest) = ?c" using c by simp
  have dr: "drop 16 (?c @ cbc_enc E n ?c (drop 16 data) @ rest) = cbc_enc E n ?c (drop 16 data) @ rest"
    using c by simp
  from Suc.prems have "length (take 16 data) = length prev" by simp
  then have "xor_bytes ?x prev = take 16 data" by (rule xor_bytes_cancel)
  with inv [OF x] have first: "xor_bytes (D ?c) prev = take 16 data" by simp
  have tka: "take 16 data @ take (16 * n) (drop 16 data) = take (16 * Suc n) data"
    by (simp add: take_add [symmetric] del: take_add)
  let ?r = "cbc_enc E n ?c (drop 16 data) @ rest"
  have e: "cbc_enc E (Suc n) prev data @ rest = ?c @ ?r"
    by (simp add: Let_def)
  from Suc.IH [OF c d]
  have ih1: "cbc_dec D n ?c ?r = take (16 * n) (drop 16 data)"
    and ih2: "cbc_dec_chain n ?c ?r = cbc_enc_chain E n ?c (drop 16 data)"
    by simp_all
  have "cbc_dec D (Suc n) prev (?c @ ?r) = take (16 * Suc n) data"
    unfolding cbc_dec.simps tk dr first ih1 by (rule tka)
  moreover have "cbc_dec_chain (Suc n) prev (?c @ ?r) = cbc_enc_chain E (Suc n) prev data"
    unfolding cbc_dec_chain.simps cbc_enc_chain.simps tk dr ih2 ..
  ultimately show ?case unfolding e ..
qed

lemma unat_pad_byte: "k \<le> 16 \<Longrightarrow> unat (of_nat k :: byte) = k"
  by (rule unat_byte_of_nat) simp

lemma rev_padded: "0 < k \<Longrightarrow> rev (tail @ replicate k p) = p # replicate (k - 1) p @ rev tail"
  by (cases k) (simp_all add: replicate_append_same)

lemma pkcs7_unpad_pad:
  assumes "length tail < 16"
  shows "pkcs7_unpad (tail @ replicate (16 - length tail) (of_nat (16 - length tail))) = Inr tail"
proof -
  let ?k = "16 - length tail"
  let ?p = "of_nat ?k :: byte"
  from assms have k: "0 < ?k" "?k \<le> 16" by simp_all
  have u: "unat ?p = ?k" using k(2) by (rule unat_pad_byte)
  have rv: "rev (tail @ replicate ?k ?p) = ?p # replicate (?k - 1) ?p @ rev tail"
    using k(1) by (rule rev_padded)
  have l: "16 - ?k = length tail" using assms by simp
  show ?thesis
    unfolding pkcs7_unpad_def rv list.case Let_def u l
    using k by simp
qed

lemma cipher_round_trip_raw:
  assumes ok: "aes_inverse L" and key: "length key = 32" and iv: "length iv = 16"
    and upd: "cipher_update L \<lparr>ckey = key, chain = iv, pending = [], held = h\<rparr> data = (out1, c1)"
    and fin: "cipher_final L c1 = out2"
    and dupd: "decipher_update L \<lparr>dkey = key, dchain = iv, dpending = [], dtext = u\<rparr> (out1 @ out2)
                 = (plain1, d1)"
  shows "length out1 = 16 * (length data div 16)" and "length out2 = 16"
    and "dtext d1 = u"
    and "\<exists>plain2. decipher_final L d1 = Inr plain2 \<and> plain1 @ plain2 = data"
proof -
  let ?E = "aes_encrypt_block L key"
  let ?D = "aes_decrypt_block L key"
  let ?n = "length data div 16"
  let ?tail = "drop (16 * ?n) data"
  let ?k = "16 - length ?tail"
  let ?ch = "cbc_enc_chain ?E ?n iv data"
  let ?padded = "?tail @ replicate ?k (of_nat ?k)"
  from ok key have len: "\<And>b. length b = 16 \<Longrightarrow> length (?E b) = 16"
    and inv: "\<And>b. length b = 16 \<Longrightarrow> ?D (?E b) = b"
    by (simp_all add: aes_inverse_def)
  have n: "16 * ?n \<le> length data" by simp
  have tail: "length ?tail < 16" by simp
  from upd have out1: "out1 = cbc_enc ?E ?n iv data"
    and c1: "ckey c1 = key" "chain c1 = ?ch" "pending c1 = ?tail"
    by (auto simp: cipher_update_def Let_def)
  have l1: "length out1 = 16 * ?n" unfolding out1 by (rule length_cbc_enc [OF len iv n])
  then show "length out1 = 16 * (length data div 16)" .
  have lch: "length ?ch = 16" by (rule length_cbc_enc_chain [OF len iv n])
  from tail have lp: "length ?padded = 16" by simp
  from fin c1 have out2: "out2 = ?E (xor_bytes ?padded ?ch)"
    by (simp add: cipher_final_def Let_def)
  from lp lch have lx: "length (xor_bytes ?padded ?ch) = 16" by (simp add: length_xor_bytes)
  then have l2: "length out2 = 16" unfolding out2 by (rule len)
  then show "length out2 = 16" .
  from l1 l2 have nn: "(length (out1 @ out2) - 1) div 16 = ?n" by simp
  from cbc_dec_enc [OF len inv iv n, where rest = out2]
  have dec: "cbc_dec ?D ?n iv (out1 @ out2) = take (16 * ?n) data"
    and dch: "cbc_dec_chain ?n iv (out1 @ out2) = ?ch"
    unfolding out1 by simp_all
  from l1 have drp: "drop (16 * ?n) (out1 @ out2) = out2" by simp
  from dupd have plain1: "plain1 = take (16 * ?n) data"
    and d1: "dkey d1 = key" "dchain d1 = ?ch" "dpending d1 = out2" "dtext d1 = u"
    unfolding decipher_update_def Let_def append_Nil nn decipher.simps dec dch drp
    by auto
  from d1 show "dtext d1 = u" by simp
  from lp lch have "xor_bytes (xor_bytes ?padded ?ch) ?ch = ?padded"
    by (intro xor_bytes_cancel) simp
  with inv [OF lx] have "xor_bytes (?D out2) ?ch = ?padded" unfolding out2 by simp
  with d1 l2 have "decipher_final L d1 = pkcs7_unpad ?padded"
    by (simp add: decipher_final_def)
  also have "\<dots> = Inr ?tail" using tail by (rule pkcs7_unpad_pad)
  finally have "decipher_final L d1 = Inr ?tail" .
  moreover have "plain1 @ ?tail = data" unfolding plain1 by simp
  ultimately show "\<exists>plain2. decipher_final L d1 = Inr plain2 \<and> plain1 @ plain2 = data"
    by blast
qed

subsection \<open>The text of a buffer and the shape of a token\<close>

lemma base64url_encode_append:
  "3 dvd length xs \<Longrightarrow> base64url_encode (xs @ ys) = base64url_encode xs @ base64url_encode ys"
  by (simp add: base64url_encode_def sextets_append)

lemma toString_append:
  "3 dvd length xs \<Longrightarrow>
     buffer_toString (xs @ ys) enc = buffer_toString xs enc @ buffer_toString ys enc"
  by (cases enc) (simp_all add: hex_encode_append base64_encode_append base64url_encode_append)

lemma toString_thirds:
  "buffer_toString (take (3 * (length xs div 3)) xs) enc
     @ buffer_toString (drop (3 * (length xs div 3)) xs) enc = buffer_toString xs enc"
proof -
  have "3 dvd length (take (3 * (length xs div 3)) xs)" by simp
  from toString_append [OF this, of "drop (3 * (length xs div 3)) xs" enc]
  show ?thesis by simp
qed

lemma sd_write_end:
  "fst (sd_write enc [] a) @ sd_end enc (snd (sd_write enc [] a)) b = buffer_toString (a @ b) enc"
proof (cases enc)
  case Hex
  then show ?thesis by (simp add: sd_end_def hex_encode_append hex_encode_def)
next
  case Base64
  let ?n = "3 * (length a div 3)"
  let ?x = "drop ?n a @ b"
  have "fst (sd_write Base64 [] a) @ sd_end Base64 (snd (sd_write Base64 [] a)) b =
      buffer_toString (take ?n a) Base64 @
      (buffer_toString (take (3 * (length ?x div 3)) ?x) Base64
        @ buffer_toString (drop (3 * (length ?x div 3)) ?x) Base64)"
    by (simp add: sd_end_def Let_def)
  also have "\<dots> = buffer_toString (take ?n a) Base64 @ buffer_toString ?x Base64"
    by (simp only: toString_thirds)
  also have "\<dots> = buffer_toString (take ?n a @ ?x) Base64"
    by (rule toString_append [symmetric]) simp
  also have "take ?n a @ ?x = a @ b"
    by (simp add: append_assoc [symmetric] del: append_assoc)
  finally show ?thesis unfolding Base64 .
next
  case Base64Url
  let ?n = "3 * (length a div 3)"
  let ?x = "drop ?n a @ b"
  have "fst (sd_write Base64Url [] a) @ sd_end Base64Url (snd (sd_write Base64Url [] a)) b =
      buffer_toString (take ?n a) Base64Url @
      (buffer_toString (take (3 * (length ?x div 3)) ?x) Base64Url
        @ buffer_toString (drop (3 * (length ?x div 3)) ?x) Base64Url)"
    by (simp add: sd_end_def Let_def)
  also have "\<dots> = buffer_toString (take ?n a) Base64Url @ buffer_toString ?x Base64Url"
    by (simp only: toString_thirds)
  also have "\<dots> = buffer_toString (take ?n a @ ?x) Base64Url"
    by (rule toString_append [symmetric]) simp
  also have "take ?n a @ ?x = a @ b"
    by (simp add: append_assoc [symmetric] del: append_assoc)
  finally show ?thesis unfolding Base64Url .
qed

lemma cipher_final_held: "cipher_final L (c\<lparr>held := r\<rparr>) = cipher_final L c"
  by (simp add: cipher_final_def)

lemma cipher_update_held:
  "held c = [] \<Longrightarrow> held (snd (cipher_update L c data)) = []"
  by (simp add: cipher_update_def Let_def)

lemma cipher_text:
  assumes "held c = []"
  shows "fst (cipher_update_str L c data enc)
       @ cipher_final_str L (snd (cipher_update_str L c data enc)) enc
     = buffer_toString (fst (cipher_update L c data) @ cipher_final L (snd (cipher_update L c data))) enc"
proof -
  obtain out1 c1 where u: "cipher_update L c data = (out1, c1)"
    by (cases "cipher_update L c data")
  with cipher_update_held [OF assms, of L data] have h: "held c1 = []" by simp
  obtain s rest where w: "sd_write enc [] out1 = (s, rest)" by (cases "sd_write enc [] out1")
  from sd_write_end [of enc out1 "cipher_final L c1"] w
  have "s @ sd_end enc rest (cipher_final L c1) = buffer_toString (out1 @ cipher_final L c1) enc"
    by simp
  with u h w show ?thesis
    by (simp add: cipher_update_str_def cipher_final_str_def cipher_final_held)
qed

lemma encrypt_branch_token:
  assumes key: "length key = 32" and iv: "length iv = 16"
  shows "encrypt_branch L key iv plain fmt =
     Inr (buffer_toString iv fmt @ [46] @
          buffer_toString
            (fst (cipher_update L \<lparr>ckey = key, chain = iv, pending = [], held = []\<rparr>
                   (utf8_encode plain))
             @ cipher_final L
                 (snd (cipher_update L \<lparr>ckey = key, chain = iv, pending = [], held = []\<rparr>
                        (utf8_encode plain)))) fmt)"
proof -
  let ?c = "\<lparr>ckey = key, chain = iv, pending = [], held = []\<rparr>"
  from key iv have cr: "createCipheriv key iv = Inr ?c" by (simp add: createCipheriv_def)
  show ?thesis
  proof (cases "fmt = Base64Url")
    case True
    then show ?thesis
      by (simp add: encrypt_branch_def cr to_base64url_encode case_prod_beta)
  next
    case False
    have h: "held ?c = []" by simp
    from cipher_text [OF h, of L "utf8_encode plain" fmt] False show ?thesis
      by (simp add: encrypt_branch_def cr case_prod_beta)
  qed
qed

lemma length_base64url_16: "length bs = 16 \<Longrightarrow> length (base64url_encode bs) = 22"
  by (simp add: base64url_encode_def length_sextets)

lemma length_base64_16: "length bs = 16 \<Longrightarrow> length (base64_encode bs) = 24"
  by (simp add: base64_encode_def length_sextets)

lemma base64url_chars: "list_all is_b64url_char (base64url_encode bs)"
proof -
  have "list_all is_b64url_char (map b64url_char ss)" if "list_all (\<lambda>n. n < 64) ss" for ss
    using that by (induction ss) (simp_all add: is_b64url_char_b64url_char)
  from this [OF sextets_bound] show ?thesis by (simp add: base64url_encode_def)
qed

lemma detect_hex:
  assumes "length iv = 16"
  shows "detect_encoding (buffer_toString iv Hex) = Inr (Hex, False)"
proof -
  have "list_all is_hex_char (hex_encode iv)"
    using hex_encode_lower [of iv] by (simp add: list_all_iff is_lower_hex_is_hex)
  moreover from assms have "length (hex_encode iv) = 32" by (simp add: length_hex_encode)
  moreover from this have "hex_encode iv \<noteq> []" by auto
  ultimately show ?thesis by (simp add: detect_encoding_def test_hex_def)
qed

lemma detect_base64:
  assumes "length iv = 16"
  shows "detect_encoding (buffer_toString iv Base64) = Inr (Base64, False)"
proof -
  from assms have l: "length (base64_encode iv) = 24" by (rule length_base64_16)
  from assms have "(61 :: code_unit) \<in> set (base64_encode iv)"
    by (simp add: base64_encode_def)
  then have "test_b64_punct (base64_encode iv)"
    by (auto simp: test_b64_punct_def list_ex_iff is_b64_punct_def)
  with l show ?thesis by (simp add: detect_encoding_def)
qed

lemma detect_base64url:
  assumes "length iv = 16"
  shows "detect_encoding (buffer_toString iv Base64Url) = Inr (Base64, True)"
proof -
  from assms have l: "length (base64url_encode iv) = 22" by (rule length_base64url_16)
  then have ne: "base64url_encode iv \<noteq> []" by auto
  have "\<not> test_b64_punct (base64url_encode iv)"
    using base64url_chars [of iv]
    by (auto simp: test_b64_punct_def list_ex_iff list_all_iff is_b64url_char_not_punct)
  with l ne base64url_chars [of iv] show ?thesis
    by (simp add: detect_encoding_def test_b64url_def)
qed

lemma no_dot_toString: "46 \<notin> set (buffer_toString bs enc)"
proof (cases enc)
  case Hex
  with hex_encode_lower [of bs] show ?thesis
    by (auto simp: list_all_iff dest: is_lower_hex_not_dot)
next
  case Base64
  have "46 \<notin> set (map b64_char ss)" if "list_all (\<lambda>n. n < 64) ss" for ss
    using that by (induction ss) (auto dest: b64_char_not_dot)
  from this [OF sextets_bound] Base64 show ?thesis
    by (auto simp: base64_encode_def)
next
  case Base64Url
  with base64url_chars [of bs] show ?thesis
    by (auto simp: list_all_iff dest: is_b64url_char_not_dot)
qed

lemma split_token:
  "split_str 46 (buffer_toString a enc @ [46] @ buffer_toString b enc) =
     [buffer_toString a enc, buffer_toString b enc]"
  using no_dot_toString [of a enc] no_dot_toString [of b enc]
  by (simp add: split_str_append split_str_no_sep)

subsection \<open>Decrypting what the encrypt branch wrote\<close>

lemma decipher_final_dtext: "decipher_final L (d\<lparr>dtext := u\<rparr>) = decipher_final L d"
  by (simp add: decipher_final_def)

lemma decipher_text:
  assumes ok: "aes_inverse L" and key: "length key = 32" and iv: "length iv = 16"
    and upd: "cipher_update L \<lparr>ckey = key, chain = iv, pending = [], held = []\<rparr> data = (out1, c1)"
  shows "(case createDecipheriv key iv of
            Inl e \<Rightarrow> Inl e
          | Inr decipher \<Rightarrow>
             (let (decrypted, d1) = decipher_update_str L decipher (out1 @ cipher_final L c1)
              in case decipher_final_str L d1 of
                   Inl e \<Rightarrow> Inl e
                 | Inr s \<Rightarrow> Inr (decrypted @ s)))
         = Inr (utf8_end utf8_init data)"
proof -
  let ?d = "\<lparr>dkey = key, dchain = iv, dpending = [], dtext = utf8_init\<rparr>"
  let ?ct = "out1 @ cipher_final L c1"
  from key iv have cr: "createDecipheriv key iv = Inr ?d" by (simp add: createDecipheriv_def)
  obtain plain1 d1 where du: "decipher_update L ?d ?ct = (plain1, d1)"
    by (cases "decipher_update L ?d ?ct")
  from cipher_round_trip_raw(3,4) [OF ok key iv upd refl du]
  obtain plain2 where tx: "dtext d1 = utf8_init"
    and fin: "decipher_final L d1 = Inr plain2" and all: "plain1 @ plain2 = data"
    by blast
  let ?w = "utf8_write utf8_init plain1"
  from du tx have us: "decipher_update_str L ?d ?ct = (fst ?w, d1\<lparr>dtext := snd ?w\<rparr>)"
    by (simp add: decipher_update_str_def case_prod_beta)
  from fin have fs: "decipher_final_str L (d1\<lparr>dtext := snd ?w\<rparr>) = Inr (utf8_end (snd ?w) plain2)"
    by (simp add: decipher_final_str_def decipher_final_dtext)
  from utf8_end_split [of plain1 plain2] all
  have "fst ?w @ utf8_end (snd ?w) plain2 = utf8_end utf8_init data" by simp
  with cr us fs show ?thesis by simp
qed

lemma decoded_buffers:
  assumes "length iv = 16"
  shows "\<exists>enc url. detect_encoding (buffer_toString iv fmt) = Inr (enc, url)
     \<and> (if url then buffer_from (from_base64url (buffer_toString bs fmt)) Base64
         else buffer_from (buffer_toString bs fmt) enc) = bs
     \<and> (if url then buffer_from (from_base64url (buffer_toString iv fmt)) Base64
         else buffer_from (buffer_toString iv fmt) enc) = iv"
proof (cases fmt)
  case Hex
  with detect_hex [OF assms] show ?thesis by (auto simp: hex_decode_encode)
next
  case Base64
  with detect_base64 [OF assms] show ?thesis by (auto simp: base64_decode_encode)
next
  case Base64Url
  have "base64_decode (from_base64url (base64url_encode x)) = x" for x
    using base64url_round_trip [of x] by (simp add: to_base64url_encode)
  with Base64Url detect_base64url [OF assms] show ?thesis by auto
qed

lemma round_trip_bytes:
  assumes ok: "aes_inverse L" and key: "length key = 32" and iv: "length iv = 16"
  shows "decrypt_encrypt L key iv plain fmt = Inr (utf8_end utf8_init (utf8_encode plain))"
proof -
  let ?c = "\<lparr>ckey = key, chain = iv, pending = [], held = []\<rparr>"
  obtain out1 c1 where upd: "cipher_update L ?c (utf8_encode plain) = (out1, c1)"
    by (cases "cipher_update L ?c (utf8_encode plain)")
  let ?ct = "out1 @ cipher_final L c1"
  let ?ivs = "buffer_toString iv fmt"
  let ?cts = "buffer_toString ?ct fmt"
  from encrypt_branch_token [OF key iv, of L plain fmt] upd
  have enc: "encrypt_branch L key iv plain fmt = Inr (?ivs @ [46] @ ?cts)" by simp
  have parts: "split_str 46 (?ivs @ [46] @ ?cts) = [?ivs, ?cts]" by (rule split_token)
  from decoded_buffers [OF iv, of fmt ?ct]
  obtain e url where det: "detect_encoding ?ivs = Inr (e, url)"
    and bct: "(if url then buffer_from (from_base64url ?cts) Base64 else buffer_from ?cts e) = ?ct"
    and biv: "(if url then buffer_from (from_base64url ?ivs) Base64 else buffer_from ?ivs e) = iv"
    by blast
  have "decrypt_try L key ?ivs ?cts e url = Inr (utf8_end utf8_init (utf8_encode plain))"
    using decipher_text [OF ok key iv upd] bct biv
    by (cases url) (simp_all add: decrypt_try_def)
  with parts det have "decrypt_branch L key (?ivs @ [46] @ ?cts)
      = Inr (utf8_end utf8_init (utf8_encode plain))"
    by (simp add: decrypt_branch_def includes_str_def)
  with enc show ?thesis by (simp add: decrypt_encrypt_def)
qed

lemma length_randomBytes: "length (fst (randomBytes rnd pos n)) = n"
  by (simp add: randomBytes_def)

subsection \<open>Key derivation on ASCII secrets; the example platform\<close>

lemma aes_inverse_xor_platform: "aes_inverse xor_platform"
  by (simp add: aes_inverse_def xor_platform_def length_xor_bytes xor_bytes_cancel)

lemma utf8_encode_ascii:
  "is_ascii s \<Longrightarrow> utf8_encode s = map (\<lambda>c. of_nat (unat c)) s"
proof (induction s rule: utf8_encode.induct)
  case 1
  show ?case by simp
next
  case (2 c)
  then show ?case
    by (simp add: is_ascii_def unit_code_point_def is_high_surrogate_def is_low_surrogate_def
        utf8_bytes_def)
next
  case (3 c d cs)
  from "3.prems" have c: "unat c < 128" and rest: "is_ascii (d # cs)"
    by (simp_all add: is_ascii_def)
  from c have ns: "\<not> is_high_surrogate c" "\<not> is_low_surrogate c"
    by (simp_all add: is_high_surrogate_def is_low_surrogate_def)
  then have enc: "utf8_encode (c # d # cs) = utf8_bytes (unit_code_point c) @ utf8_encode (d # cs)"
    by (subst utf8_encode.simps(3)) (simp only: simp_thms if_False)
  from ns c have "utf8_bytes (unit_code_point c) = [of_nat (unat c)]"
    by (simp add: unit_code_point_def utf8_bytes_def)
  with "3.IH"(2) ns rest show ?case unfolding enc by simp
qed

lemma length_utf8_encode_ascii: "is_ascii s \<Longrightarrow> length (utf8_encode s) = length s"
  by (simp add: utf8_encode_ascii)

lemma derive_key_ascii:
  assumes "is_ascii s"
  shows "length (derive_key s) = 32"
    and "derive_key s = take 32 (utf8_encode s @ replicate (32 - length (utf8_encode s)) 48)"
proof -
  let ?p = "slice_str 0 32 (padEnd 32 48 s)"
  have p: "?p = take 32 (s @ replicate (32 - length s) 48)"
    by (simp add: slice_str_def padEnd_def)
  from assms have a: "is_ascii ?p" unfolding p
    by (auto simp: is_ascii_def list_all_iff dest: in_set_takeD)
  from length_utf8_encode_ascii [OF a] show "length (derive_key s) = 32"
    unfolding derive_key_def by (simp add: slice_str_def padEnd_def)
  have "utf8_encode ?p = map (\<lambda>c. of_nat (unat c)) ?p" using a by (rule utf8_encode_ascii)
  also have "\<dots> = take 32 (map (\<lambda>c. of_nat (unat c)) s @ replicate (32 - length s) 48)"
    unfolding p by (simp add: take_map)
  also have "\<dots> = take 32 (utf8_encode s @ replicate (32 - length (utf8_encode s)) 48)"
    using assms by (simp add: utf8_encode_ascii)
  finally show "derive_key s = take 32 (utf8_encode s @ replicate (32 - length (utf8_encode s)) 48)"
    unfolding derive_key_def .
qed

lemma is_ascii_example: "is_ascii (lit ''0123456789abcdef0123456789abcdef'')"
  by (simp add: is_ascii_def lit_def)

lemma length_example_key: "length example_key = 32"
  unfolding example_key_def using is_ascii_example by (rule derive_key_ascii(1))

lemma text_not_empty: "bs \<noteq> [] \<Longrightarrow> buffer_toString bs enc \<noteq> []"
  by (cases enc; cases bs rule: sextets.cases)
    (simp_all add: hex_encode_def base64_encode_def base64url_encode_def)

subsection \<open>The example batch\<close>

lemma try_item_encrypt:
  assumes "length key = 32" and "operation it = lit ''encrypt''"
  shows "\<exists>token. try_item L rnd key pos it i =
     (Inr \<lparr>out_json = set_field
                         (if keepOriginal it = Some (JBool False) then Map.empty else json it)
                         (outputFieldName it) (JString token),
           pairedItem = i\<rparr>, pos + 16)"
proof -
  let ?fmt = "case outputFormat it of None \<Rightarrow> Hex | Some f \<Rightarrow> f"
  from encrypt_branch_token [OF assms(1) length_randomBytes, of L rnd pos "inputField it" ?fmt]
  obtain token where "encrypt_branch L key (fst (randomBytes rnd pos 16)) (inputField it) ?fmt
      = Inr token" by blast
  with assms(2) show ?thesis
    by (auto simp: try_item_def item_result_def Let_def case_prod_beta randomBytes_def)
qed

lemma try_example_encrypt:
  "\<exists>token. try_item L rnd example_key pos (example_item ''encrypt'' input) i =
     (Inr \<lparr>out_json = [lit ''id'' \<mapsto> JOther (), lit ''result'' \<mapsto> JString token],
           pairedItem = i\<rparr>, pos + 16)"
proof -
  have op: "operation (example_item ''encrypt'' input) = lit ''encrypt''"
    by (simp add: example_item_def)
  have name: "lit ''result'' \<noteq> lit ''__proto__''" by (simp add: lit_def)
  from try_item_encrypt [OF length_example_key op, of L rnd pos i] name
  show ?thesis by (simp add: example_item_def set_field_def)
qed

lemma try_example_malformed:
  "fst (try_item L rnd key pos (example_item ''decrypt'' ''abcdef'') i) = Inl InvalidFormat"
  by (simp add: example_item_def try_item_def item_result_def decrypt_branch_def
      includes_str_def lit_def)

subsection \<open>Stopping at the first failure\<close>

lemma run_items_abort:
  assumes "i < length items"
    and "fst (try_item L rnd key
           (pos + 16 * length (filter (\<lambda>it. operation it = lit ''encrypt'') (take i items)))
           (items ! i) (idx + i)) = Inl e"
    and "\<forall>j<i. \<exists>out. fst (try_item L rnd key
           (pos + 16 * length (filter (\<lambda>it. operation it = lit ''encrypt'') (take j items)))
           (items ! j) (idx + j)) = Inr out"
  shows "run_items L rnd False key idx pos items rd = Inl \<lparr>cause = e, at_item = Some (idx + i)\<rparr>"
  using assms
proof (induction items arbitrary: i idx pos rd)
  case Nil
  then show ?case by simp
next
  case (Cons it rest)
  let ?enc = "\<lambda>it. operation it = lit ''encrypt''"
  let ?t = "try_item L rnd key pos it idx"
  show ?case
  proof (cases i)
    case 0
    with Cons.prems(2) have "fst ?t = Inl e" by simp
    then show ?thesis using 0 by (cases ?t) simp
  next
    case (Suc k)
    from Cons.prems(3) Suc have "\<exists>out. fst (try_item L rnd key
           (pos + 16 * length (filter ?enc (take 0 (it # rest)))) ((it # rest) ! 0) (idx + 0))
           = Inr out"
      by blast
    then obtain out where head: "fst ?t = Inr out" by auto
    let ?pos' = "snd ?t"
    have shift: "pos + 16 * length (filter ?enc (take (Suc j) (it # rest))) =
        ?pos' + 16 * length (filter ?enc (take j rest))" for j
      by (simp add: snd_try_item)
    from Cons.prems(1) Suc have k: "k < length rest" by simp
    from Cons.prems(2) have fail: "fst (try_item L rnd key
           (?pos' + 16 * length (filter ?enc (take k rest))) (rest ! k) (Suc idx + k)) = Inl e"
      unfolding Suc shift by simp
    have ok: "\<forall>j<k. \<exists>out. fst (try_item L rnd key
           (?pos' + 16 * length (filter ?enc (take j rest))) (rest ! j) (Suc idx + j)) = Inr out"
    proof (intro allI impI)
      fix j assume "j < k"
      then have "Suc j < i" using Suc by simp
      with Cons.prems(3) have "\<exists>out. fst (try_item L rnd key
           (pos + 16 * length (filter ?enc (take (Suc j) (it # rest))))
           ((it # rest) ! Suc j) (idx + Suc j)) = Inr out"
        by blast
      then show "\<exists>out. fst (try_item L rnd key
           (?pos' + 16 * length (filter ?enc (take j rest))) (rest ! j) (Suc idx + j)) = Inr out"
        unfolding shift by simp
    qed
    from Cons.IH [OF k fail ok, of "rd @ [out]"] head
    show ?thesis using Suc by (cases ?t) simp
  qed
qed

section \<open>The properties\<close>

text \<open>
  C1 (round trip), as amended. For every platform whose block function is inverted by
  its decrypt function, every key of 32 bytes, each of the three output formats, every
  IV of 16 bytes that \<^verbatim>\<open>randomBytes(16)\<close> draws, and every plaintext that is
  well-formed UTF-16 (the empty string, ASCII, and characters of two, three and four
  UTF-8 bytes included), the decrypt branch run on the token of the encrypt branch
  returns the plaintext.
\<close>

theorem round_trip:
  assumes "aes_inverse L" and "length key = 32" and "well_formed plain"
  shows "decrypt_encrypt L key (fst (randomBytes rnd pos 16)) plain fmt = Inr plain"
  using round_trip_bytes [OF assms(1,2) length_randomBytes, of rnd pos plain fmt]
    utf8_round_trip [OF assms(3)]
  by simp

theorem round_trip_witness:
  "aes_inverse xor_platform \<and> length example_key = 32 \<and> well_formed (lit ''hello world'')
   \<and> decrypt_encrypt xor_platform example_key (fst (randomBytes counter_source 0 16))
        (lit ''hello world'') Hex = Inr (lit ''hello world'')"
proof -
  have wf: "well_formed (lit ''hello world'')"
    by (simp add: lit_def is_high_surrogate_def is_low_surrogate_def)
  from round_trip [OF aes_inverse_xor_platform length_example_key wf, of counter_source 0 Hex]
    aes_inverse_xor_platform length_example_key wf
  show ?thesis by simp
qed

text \<open>
  C1 as stated, for every plaintext string, fails: a string that holds a surrogate
  code unit with no partner is encrypted as the bytes of U+FFFD, and U+FFFD is what
  decryption returns.
\<close>

theorem round_trip_lone_surrogate:
  "decrypt_encrypt xor_platform example_key (fst (randomBytes counter_source 0 16)) [55296] Hex
     = Inr [65533]
   \<and> decrypt_encrypt xor_platform example_key (fst (randomBytes counter_source 0 16)) [55296] Hex
     \<noteq> Inr [55296]"
proof -
  have r: "decrypt_encrypt xor_platform example_key (fst (randomBytes counter_source 0 16))
      [55296] Hex = Inr (utf8_end utf8_init (utf8_encode [55296]))"
    using aes_inverse_xor_platform length_example_key length_randomBytes
    by (rule round_trip_bytes)
  show ?thesis unfolding r lone_surrogate by simp
qed

text \<open>
  C2 (key derivation). The claim is that the derived key always has 32 bytes; the node
  pads and cuts the secret to 32 code units and only then encodes it as UTF-8, so a
  secret with a character outside ASCII gives a longer key. For the one-character
  secret U+00E9 the key has 33 bytes: the two bytes of the character and 31 bytes
  \<^verbatim>\<open>0x30\<close>.
\<close>

theorem derive_key_non_ascii:
  "derive_key [233] = [195, 169] @ replicate 31 48 \<and> length (derive_key [233]) = 33"
proof -
  have p: "slice_str 0 32 (padEnd 32 48 [233]) = 233 # replicate 31 48"
    by (simp add: slice_str_def padEnd_def)
  have r: "is_ascii (replicate 31 48)" by (simp add: is_ascii_def list_all_iff)
  have "\<not> is_high_surrogate 233" "\<not> is_low_surrogate 233"
    by (simp_all add: is_high_surrogate_def is_low_surrogate_def)
  then have "utf8_encode (233 # 48 # replicate 30 48) =
      utf8_bytes (unit_code_point 233) @ utf8_encode (48 # replicate 30 48)"
    by (subst utf8_encode.simps(3)) (simp only: simp_thms if_False)
  moreover have "replicate 31 (48 :: code_unit) = 48 # replicate 30 48"
    by (simp add: numeral_eq_Suc)
  moreover have "utf8_bytes (unit_code_point 233) = [195, 169]"
    by (simp add: unit_code_point_def utf8_bytes_def is_high_surrogate_def is_low_surrogate_def)
  moreover have "utf8_encode (replicate 31 48) = replicate 31 48"
    using utf8_encode_ascii [OF r] by simp
  ultimately have "derive_key [233] = [195, 169] @ replicate 31 48"
    unfolding derive_key_def p by simp
  then show ?thesis by simp
qed

theorem derive_key_non_ascii_witness: "length (derive_key [233]) \<noteq> 32"
  using derive_key_non_ascii by simp

text \<open>
  C3 (detection precedence). For every token that splits into two segments and whose
  IV segment has 22 characters, none of them \<^verbatim>\<open>+\<close>, \<^verbatim>\<open>/\<close> or \<^verbatim>\<open>=\<close>, all of
  them in \<^verbatim>\<open>[A-Za-z0-9_-]\<close>, the detection answers base64url (the encoding
  \<^verbatim>\<open>base64\<close> with \<^verbatim>\<open>isBase64Url\<close> set), and the decrypt branch decodes the token
  on the base64url path.
\<close>

theorem detection_precedence:
  assumes parts: "split_str 46 token = [ivString, encryptedData]"
    and len: "length ivString = 22"
    and punct: "\<not> test_b64_punct ivString"
    and chars: "list_all is_b64url_char ivString"
  shows "detect_encoding ivString = Inr (Base64, True)
    \<and> decrypt_branch L key token =
        (case decrypt_try L key ivString encryptedData Base64 True of
           Inl e \<Rightarrow> Inl (DecryptionFailed e)
         | Inr s \<Rightarrow> Inr s)"
proof -
  from len have "ivString \<noteq> []" by auto
  with chars have "test_b64url ivString" by (simp add: test_b64url_def)
  with len punct have det: "detect_encoding ivString = Inr (Base64, True)"
    by (simp add: detect_encoding_def)
  from parts have "length (split_str 46 token) = 2" by simp
  then have "46 \<in> set token" by (rule split_two_has_sep)
  with parts det show ?thesis
    by (simp add: decrypt_branch_def includes_str_def)
qed

theorem detection_precedence_witness:
  "length (lit ''AAECAwQFBgcICQoLDA0ODw'') = 22
   \<and> detect_encoding (lit ''AAECAwQFBgcICQoLDA0ODw'') = Inr (Base64, True)"
proof -
  let ?iv = "lit ''AAECAwQFBgcICQoLDA0ODw''"
  let ?ct = "lit ''WFVcXF8QR19CXA9samxubA''"
  have sp: "split_str 46 (lit ''AAECAwQFBgcICQoLDA0ODw.WFVcXF8QR19CXA9samxubA'') = [?iv, ?ct]"
    by (simp add: lit_def)
  have len: "length ?iv = 22" by (simp add: lit_def)
  have np: "\<not> test_b64_punct ?iv" by (simp add: lit_def test_b64_punct_def is_b64_punct_def)
  have ch: "list_all is_b64url_char ?iv" by (simp add: lit_def is_b64url_char_def)
  from detection_precedence [OF sp len np ch, of xor_platform example_key] len
  show ?thesis by simp
qed

text \<open>
  C4 (structural validation). For every input of the decrypt branch that has no
  period, or that does not split at the periods into exactly two segments, the branch
  fails with the invalid-format error: no encoding is detected, nothing is decrypted
  and no plaintext is returned.
\<close>

theorem structural_validation:
  assumes "46 \<notin> set token \<or> length (split_str 46 token) \<noteq> 2"
  shows "decrypt_branch L key token = Inl InvalidFormat"
  using assms by (auto simp: decrypt_branch_def includes_str_def Let_def)

theorem structural_validation_witness:
  "decrypt_branch xor_platform example_key (lit ''abcdef'') = Inl InvalidFormat
   \<and> decrypt_branch xor_platform example_key (lit ''a.b.c'') = Inl InvalidFormat"
proof -
  have "46 \<notin> set (lit ''abcdef'')" by (simp add: lit_def)
  then have a: "46 \<notin> set (lit ''abcdef'') \<or> length (split_str 46 (lit ''abcdef'')) \<noteq> 2" ..
  have "length (split_str 46 (lit ''a.b.c'')) \<noteq> 2" by (simp add: lit_def)
  then have b: "46 \<notin> set (lit ''a.b.c'') \<or> length (split_str 46 (lit ''a.b.c'')) \<noteq> 2" ..
  from structural_validation [OF a] structural_validation [OF b] show ?thesis by simp
qed

text \<open>
  C5 (detection failure). For every token of two segments whose IV segment matches
  none of the three rules (32 characters, all hexadecimal; 24 or 22 characters with a
  \<^verbatim>\<open>+\<close>, \<^verbatim>\<open>/\<close> or \<^verbatim>\<open>=\<close>; 22 characters, all in \<^verbatim>\<open>[A-Za-z0-9_-]\<close>), the
  decrypt branch fails with the error of the detection, whose message holds the length
  of the IV segment in decimal; nothing is decrypted.
\<close>

theorem detection_failure:
  assumes parts: "split_str 46 token = [ivString, encryptedData]"
    and hex: "\<not> (length ivString = 32 \<and> test_hex ivString)"
    and b64: "\<not> ((length ivString = 24 \<or> length ivString = 22) \<and> test_b64_punct ivString)"
    and url: "\<not> (length ivString = 22 \<and> test_b64url ivString)"
  shows "decrypt_branch L key token = Inl (UndetectedEncoding (length ivString))
    \<and> message L (UndetectedEncoding (length ivString)) =
        lit ''Unable to detect encoding format. IV length: '' @ show_nat (length ivString)
          @ lit ''. Expected 32 (hex), 24 (base64), or 22 (base64url)''"
proof -
  from parts have "length (split_str 46 token) = 2" by simp
  then have "46 \<in> set token" by (rule split_two_has_sep)
  moreover from hex b64 url
  have "detect_encoding ivString = Inl (UndetectedEncoding (length ivString))"
    unfolding detect_encoding_def by (simp only: if_False)
  ultimately show ?thesis
    using parts by (simp add: decrypt_branch_def includes_str_def Let_def)
qed

theorem detection_failure_witness:
  "decrypt_branch xor_platform example_key (lit ''abcdefghij.xyz'') = Inl (UndetectedEncoding 10)
   \<and> message xor_platform (UndetectedEncoding 10) =
       lit ''Unable to detect encoding format. IV length: 10. Expected 32 (hex), 24 (base64), or 22 (base64url)''"
proof -
  have sp: "split_str 46 (lit ''abcdefghij.xyz'') = [lit ''abcdefghij'', lit ''xyz'']"
    by (simp add: lit_def)
  have len: "length (lit ''abcdefghij'') = 10" by (simp add: lit_def)
  from detection_failure [OF sp, of xor_platform example_key] len
  show ?thesis by (simp add: lit_def)
qed

text \<open>
  C6 (batch isolation). With \<^verbatim>\<open>continueOnFail\<close> and a non-empty secret,
  \<^verbatim>\<open>execute\<close> returns one output item per input item, in the order of the input:
  the item at index \<open>i\<close> is paired with \<open>i\<close>; where the body of the loop succeeds
  on the input item it is the normal output item, and where the body fails it is the
  item whose only field is \<^verbatim>\<open>error\<close>, holding the message. The body of the loop is
  run at the position of the random source that the encrypt items before it have
  reached.
\<close>

theorem batch_isolation:
  assumes "encryptionKey \<noteq> []"
  shows "\<exists>outs. execute L rnd True (Some encryptionKey) items = Inr [outs]
     \<and> length outs = length items
     \<and> (\<forall>i<length items.
          pairedItem (outs ! i) = i
          \<and> (case fst (try_item L rnd (derive_key encryptionKey)
                   (16 * length (filter (\<lambda>it. operation it = lit ''encrypt'') (take i items)))
                   (items ! i) i) of
               Inr out \<Rightarrow> outs ! i = out
             | Inl e \<Rightarrow>
                 outs ! i = \<lparr>out_json = [lit ''error'' \<mapsto> JString (message L e)], pairedItem = i\<rparr>))"
proof -
  from run_items_continue [of L rnd "derive_key encryptionKey" 0 0 items "[]"]
  obtain outs where run: "run_items L rnd True (derive_key encryptionKey) 0 0 items [] = Inr outs"
    and len: "length outs = length items"
    and nth: "\<And>i. i < length items \<Longrightarrow> outs ! i =
            (case fst (try_item L rnd (derive_key encryptionKey)
                   (16 * length (filter (\<lambda>it. operation it = lit ''encrypt'') (take i items)))
                   (items ! i) i) of
               Inr out \<Rightarrow> out
             | Inl e \<Rightarrow> error_item L e i)"
    by (auto cong: sum.case_cong)
  have "pairedItem (outs ! i) = i
          \<and> (case fst (try_item L rnd (derive_key encryptionKey)
                   (16 * length (filter (\<lambda>it. operation it = lit ''encrypt'') (take i items)))
                   (items ! i) i) of
               Inr out \<Rightarrow> outs ! i = out
             | Inl e \<Rightarrow>
                 outs ! i = \<lparr>out_json = [lit ''error'' \<mapsto> JString (message L e)], pairedItem = i\<rparr>)"
    if "i < length items" for i
    using nth [OF that]
    by (auto simp: error_item_def pairedItem_try_item split: sum.splits)
  with run len assms show ?thesis
    by (intro exI [of _ outs]) (simp add: execute_def)
qed

theorem batch_isolation_witness:
  "\<exists>outs. execute xor_platform counter_source True
        (Some (lit ''0123456789abcdef0123456789abcdef'')) example_batch = Inr [outs]
     \<and> length outs = 3
     \<and> (\<exists>token. outs ! 0 =
           \<lparr>out_json = [lit ''id'' \<mapsto> JOther (), lit ''result'' \<mapsto> JString token],
            pairedItem = 0\<rparr>)
     \<and> outs ! 1 =
           \<lparr>out_json = [lit ''error'' \<mapsto>
              JString (lit ''Invalid encrypted text format. Expected format: iv.encryptedData'')],
            pairedItem = 1\<rparr>
     \<and> (\<exists>token. outs ! 2 =
           \<lparr>out_json = [lit ''id'' \<mapsto> JOther (), lit ''result'' \<mapsto> JString token],
            pairedItem = 2\<rparr>)"
proof -
  let ?k = "lit ''0123456789abcdef0123456789abcdef''"
  let ?enc = "\<lambda>it :: unit item. operation it = lit ''encrypt''"
  let ?pos = "\<lambda>i. 16 * length (filter ?enc (take i example_batch))"
  let ?body = "\<lambda>i. fst (try_item xor_platform counter_source example_key (?pos i)
                   (example_batch ! i) i)"
  have k: "?k \<noteq> []" by (simp add: lit_def)
  from batch_isolation [OF k, of xor_platform counter_source example_batch]
  obtain outs where ex: "execute xor_platform counter_source True (Some ?k) example_batch = Inr [outs]"
    and len: "length outs = length example_batch"
    and nth: "\<And>i. i < length example_batch \<Longrightarrow>
          (case ?body i of
               Inr out \<Rightarrow> outs ! i = out
             | Inl e \<Rightarrow>
                 outs ! i = \<lparr>out_json = [lit ''error'' \<mapsto> JString (message xor_platform e)],
                             pairedItem = i\<rparr>)"
    unfolding example_key_def by blast
  have l3: "length example_batch = 3" by (simp add: example_batch_def)
  have i0: "example_batch ! 0 = example_item ''encrypt'' ''one''"
    and i1: "example_batch ! 1 = example_item ''decrypt'' ''abcdef''"
    and i2: "example_batch ! 2 = example_item ''encrypt'' ''three''"
    by (simp_all add: example_batch_def)
  from try_example_encrypt [of xor_platform counter_source "?pos 0" "''one''" 0]
  obtain t0 where "?body 0 =
      Inr \<lparr>out_json = [lit ''id'' \<mapsto> JOther (), lit ''result'' \<mapsto> JString t0],
           pairedItem = 0\<rparr>"
    unfolding i0 by auto
  with nth [of 0] l3 have o0: "outs ! 0 =
      \<lparr>out_json = [lit ''id'' \<mapsto> JOther (), lit ''result'' \<mapsto> JString t0], pairedItem = 0\<rparr>"
    by simp
  from try_example_encrypt [of xor_platform counter_source "?pos 2" "''three''" 2]
  obtain t2 where "?body 2 =
      Inr \<lparr>out_json = [lit ''id'' \<mapsto> JOther (), lit ''result'' \<mapsto> JString t2],
           pairedItem = 2\<rparr>"
    unfolding i2 by auto
  with nth [of 2] l3 have o2: "outs ! 2 =
      \<lparr>out_json = [lit ''id'' \<mapsto> JOther (), lit ''result'' \<mapsto> JString t2], pairedItem = 2\<rparr>"
    by simp
  have "?body 1 = Inl InvalidFormat" unfolding i1 by (rule try_example_malformed)
  with nth [of 1] l3 have o1: "outs ! 1 =
           \<lparr>out_json = [lit ''error'' \<mapsto>
              JString (lit ''Invalid encrypted text format. Expected format: iv.encryptedData'')],
            pairedItem = 1\<rparr>"
    by simp
  from o0 have e0: "\<exists>token. outs ! 0 =
      \<lparr>out_json = [lit ''id'' \<mapsto> JOther (), lit ''result'' \<mapsto> JString token], pairedItem = 0\<rparr>"
    by (rule exI)
  from o2 have e2: "\<exists>token. outs ! 2 =
      \<lparr>out_json = [lit ''id'' \<mapsto> JOther (), lit ''result'' \<mapsto> JString token], pairedItem = 2\<rparr>"
    by (rule exI)
  from len l3 have l: "length outs = 3" by simp
  from ex l e0 o1 e2 show ?thesis by (intro exI [of _ outs] conjI)
qed

text \<open>
  C7 (the missing secret). When the environment variable is absent, \<^verbatim>\<open>execute\<close>
  fails with the error that the variable is not set, whatever the items and whether or
  not \<^verbatim>\<open>continueOnFail\<close> is set: the error names no item and no output item is
  returned.
\<close>

theorem config_error_first:
  "execute L rnd continueOnFail None items = Inl \<lparr>cause = KeyNotSet, at_item = None\<rparr>"
  by (simp add: execute_def)

theorem config_error_first_witness:
  "execute xor_platform counter_source True None example_batch =
     Inl \<lparr>cause = KeyNotSet, at_item = None\<rparr>
   \<and> execute xor_platform counter_source False None example_batch =
     Inl \<lparr>cause = KeyNotSet, at_item = None\<rparr>"
  using config_error_first [of xor_platform counter_source True example_batch]
    config_error_first [of xor_platform counter_source False example_batch]
  by simp




text \<open>
  C9 (the shape of a token). Every token the encrypt branch returns is an IV segment,
  one period and a ciphertext segment; it splits at the period into exactly these two,
  and neither is empty. In the hexadecimal format the IV segment is 32 characters of
  \<^verbatim>\<open>[0-9a-f]\<close> and the ciphertext segment is characters of \<^verbatim>\<open>[0-9a-f]\<close>.
\<close>

theorem token_shape:
  assumes ok: "aes_inverse L" and enc: "encrypt_branch L key iv plain fmt = Inr token"
  shows "\<exists>ivString encrypted.
      token = ivString @ [46] @ encrypted
    \<and> split_str 46 token = [ivString, encrypted]
    \<and> ivString \<noteq> [] \<and> encrypted \<noteq> []
    \<and> (fmt = Hex \<longrightarrow>
          length ivString = 32 \<and> list_all is_lower_hex ivString
          \<and> list_all is_lower_hex encrypted)"
proof -
  from enc have iv: "length iv = 16" and key: "length key = 32"
    by (auto simp: encrypt_branch_def createCipheriv_def split: if_splits)
  let ?c = "\<lparr>ckey = key, chain = iv, pending = [], held = []\<rparr>"
  obtain out1 c1 where upd: "cipher_update L ?c (utf8_encode plain) = (out1, c1)"
    by (cases "cipher_update L ?c (utf8_encode plain)")
  let ?ct = "out1 @ cipher_final L c1"
  obtain p1 d1 where
    "decipher_update L \<lparr>dkey = key, dchain = iv, dpending = [], dtext = utf8_init\<rparr> ?ct = (p1, d1)"
    by (cases "decipher_update L \<lparr>dkey = key, dchain = iv, dpending = [], dtext = utf8_init\<rparr> ?ct")
  from cipher_round_trip_raw(2) [OF ok key iv upd refl this]
  have "?ct \<noteq> []" by auto
  then have ne2: "buffer_toString ?ct fmt \<noteq> []" by (rule text_not_empty)
  from iv have "iv \<noteq> []" by auto
  then have ne1: "buffer_toString iv fmt \<noteq> []" by (rule text_not_empty)
  from encrypt_branch_token [OF key iv, of L plain fmt] upd enc
  have tok: "token = buffer_toString iv fmt @ [46] @ buffer_toString ?ct fmt" by simp
  have hex: "length (buffer_toString iv Hex) = 32" using iv by (simp add: length_hex_encode)
  show ?thesis
    unfolding tok
    using split_token [of iv fmt ?ct] ne1 ne2 hex hex_encode_lower
    by (intro exI [of _ "buffer_toString iv fmt"] exI [of _ "buffer_toString ?ct fmt"]) simp
qed

theorem token_shape_witness:
  "\<exists>token ivString encrypted.
      encrypt_branch xor_platform example_key (fst (randomBytes counter_source 0 16))
        (lit ''hello world'') Hex = Inr token
    \<and> token = ivString @ [46] @ encrypted
    \<and> split_str 46 token = [ivString, encrypted]
    \<and> length ivString = 32 \<and> encrypted \<noteq> []
    \<and> list_all is_lower_hex ivString \<and> list_all is_lower_hex encrypted"
proof -
  from encrypt_branch_token [OF length_example_key length_randomBytes,
      of xor_platform counter_source 0 "lit ''hello world''" Hex]
  obtain token where e: "encrypt_branch xor_platform example_key
      (fst (randomBytes counter_source 0 16)) (lit ''hello world'') Hex = Inr token"
    by blast
  from token_shape [OF aes_inverse_xor_platform e] e show ?thesis by blast
qed

text \<open>
  C10 (an empty ciphertext segment). For every IV segment without a period that the
  detection accepts, the token made of the segment and one period splits into the
  segment and the empty string, and the decrypt branch fails inside the decryption
  step, with the decryption error and not with a format error.
\<close>

theorem empty_ciphertext_segment:
  assumes nodot: "46 \<notin> set ivString"
    and det: "detect_encoding ivString = Inr r"
  shows "split_str 46 (ivString @ [46]) = [ivString, []]
    \<and> (\<exists>e. decrypt_branch L key (ivString @ [46]) = Inl (DecryptionFailed e))"
proof -
  from nodot have parts: "split_str 46 (ivString @ [46]) = [ivString, []]"
    by (simp add: split_str_append)
  obtain enc b where r: "r = (enc, b)" by (cases r)
  obtain e where "decrypt_try L key ivString [] enc b = Inl e"
    using decrypt_try_empty by blast
  with parts det r show ?thesis
    by (simp add: decrypt_branch_def includes_str_def Let_def)
qed

theorem empty_ciphertext_segment_witness:
  "\<exists>e. decrypt_branch xor_platform example_key (lit ''000102030405060708090a0b0c0d0e0f.'')
      = Inl (DecryptionFailed e)"
proof -
  let ?iv = "lit ''000102030405060708090a0b0c0d0e0f''"
  have nd: "46 \<notin> set ?iv" by (simp add: lit_def)
  have det: "detect_encoding ?iv = Inr (Hex, False)"
    by (simp add: detect_encoding_def test_hex_def is_hex_char_def lit_def)
  have "lit ''000102030405060708090a0b0c0d0e0f.'' = ?iv @ [46]" by (simp add: lit_def)
  with empty_ciphertext_segment [OF nd det, of xor_platform example_key] show ?thesis by simp
qed

section \<open>Further properties of the node\<close>

text \<open>
  Key derivation on ASCII secrets: for every secret of code units below 128 the
  derived key has 32 bytes, the UTF-8 bytes of the secret padded at the end with
  \<^verbatim>\<open>0x30\<close> and cut to 32.
\<close>

theorem derive_key_ascii_secret:
  assumes "is_ascii s"
  shows "length (derive_key s) = 32
    \<and> derive_key s = take 32 (utf8_encode s @ replicate (32 - length (utf8_encode s)) 48)"
  using derive_key_ascii [OF assms] by simp

theorem derive_key_ascii_secret_witness:
  "is_ascii (lit ''short'') \<and> length (derive_key (lit ''short'')) = 32
   \<and> derive_key (lit ''short'') = [115, 104, 111, 114, 116] @ replicate 27 48"
proof -
  have a: "is_ascii (lit ''short'')" by (simp add: is_ascii_def lit_def)
  have "utf8_encode (lit ''short'') = [115, 104, 111, 114, 116]"
    using utf8_encode_ascii [OF a] by (simp add: lit_def)
  with derive_key_ascii_secret [OF a] a show ?thesis by simp
qed

text \<open>
  Without \<^verbatim>\<open>continueOnFail\<close>: when the body of the loop fails on the item at index
  \<open>i\<close> and succeeds on every item before it, \<^verbatim>\<open>execute\<close> fails with that error,
  which names the item \<open>i\<close>; no output item is returned and no later item is
  processed.
\<close>

theorem abort_at_first_failure:
  assumes "encryptionKey \<noteq> []" and "i < length items"
    and "fst (try_item L rnd (derive_key encryptionKey)
           (16 * length (filter (\<lambda>it. operation it = lit ''encrypt'') (take i items)))
           (items ! i) i) = Inl e"
    and "\<forall>j<i. \<exists>out. fst (try_item L rnd (derive_key encryptionKey)
           (16 * length (filter (\<lambda>it. operation it = lit ''encrypt'') (take j items)))
           (items ! j) j) = Inr out"
  shows "execute L rnd False (Some encryptionKey) items = Inl \<lparr>cause = e, at_item = Some i\<rparr>"
  using run_items_abort [where i = i and items = items and L = L and rnd = rnd
      and key = "derive_key encryptionKey" and pos = 0 and idx = 0 and e = e and rd = "[]"] assms
  by (simp add: execute_def)

theorem abort_at_first_failure_witness:
  "execute xor_platform counter_source False
     (Some (lit ''0123456789abcdef0123456789abcdef'')) example_batch
   = Inl \<lparr>cause = InvalidFormat, at_item = Some 1\<rparr>"
proof -
  let ?k = "lit ''0123456789abcdef0123456789abcdef''"
  let ?enc = "\<lambda>it :: unit item. operation it = lit ''encrypt''"
  let ?pos = "\<lambda>i. 16 * length (filter ?enc (take i example_batch))"
  have k: "?k \<noteq> []" by (simp add: lit_def)
  have l: "(1::nat) < length example_batch" by (simp add: example_batch_def)
  have i0: "example_batch ! 0 = example_item ''encrypt'' ''one''"
    and i1: "example_batch ! 1 = example_item ''decrypt'' ''abcdef''"
    by (simp_all add: example_batch_def)
  have fail: "fst (try_item xor_platform counter_source (derive_key ?k) (?pos 1)
      (example_batch ! 1) 1) = Inl InvalidFormat"
    unfolding i1 by (rule try_example_malformed)
  have ok: "\<forall>j<1. \<exists>out. fst (try_item xor_platform counter_source (derive_key ?k) (?pos j)
      (example_batch ! j) j) = Inr out"
  proof (intro allI impI)
    fix j :: nat assume "j < 1"
    then have j: "j = 0" by simp
    from try_example_encrypt [of xor_platform counter_source "?pos 0" "''one''" 0]
    show "\<exists>out. fst (try_item xor_platform counter_source (derive_key ?k) (?pos j)
      (example_batch ! j) j) = Inr out"
      unfolding j i0 example_key_def by auto
  qed
  from abort_at_first_failure [OF k l fail ok] show ?thesis .
qed

text \<open>
  An empty secret is an absent one: \<^verbatim>\<open>!encryptionKey\<close> holds of the empty string,
  so \<^verbatim>\<open>execute\<close> fails with the error that the variable is not set and derives no
  key.
\<close>

theorem empty_secret_is_absent:
  "execute L rnd continueOnFail (Some []) items = Inl \<lparr>cause = KeyNotSet, at_item = None\<rparr>"
  by (simp add: execute_def)

theorem empty_secret_is_absent_witness:
  "execute xor_platform counter_source True (Some (lit [])) example_batch
     = Inl \<lparr>cause = KeyNotSet, at_item = None\<rparr>"
  using empty_secret_is_absent [of xor_platform counter_source True example_batch]
  by (simp add: lit_def)

text \<open>
  The output field named \<^verbatim>\<open>__proto__\<close>: when the body of the loop succeeds on an
  item whose \<^verbatim>\<open>outputFieldName\<close> is \<^verbatim>\<open>__proto__\<close>, and the object the result is
  assigned to has no property of its own of that name, the result is stored nowhere:
  the \<^verbatim>\<open>json\<close> of the output item is the kept \<^verbatim>\<open>json\<close> of the input item, or the
  empty object.
\<close>

theorem proto_field_not_stored:
  assumes "try_item L rnd key pos it itemIndex = (Inr out, pos')"
    and "outputFieldName it = lit ''__proto__''"
    and "keepOriginal it = Some (JBool False) \<or> json it (lit ''__proto__'') = None"
  shows "out_json out = (if keepOriginal it = Some (JBool False) then Map.empty else json it)"
  using assms
  by (auto simp: try_item_def set_field_def Let_def split: prod.splits sum.splits if_splits)

theorem proto_field_not_stored_witness:
  "\<exists>out. try_item xor_platform counter_source example_key 0
        ((example_item ''encrypt'' ''hello world'')\<lparr>outputFieldName := lit ''__proto__''\<rparr>) 0
        = (Inr out, 16)
     \<and> out_json out = [lit ''id'' \<mapsto> JOther ()]"
proof -
  let ?it = "(example_item ''encrypt'' ''hello world'')\<lparr>outputFieldName := lit ''__proto__''\<rparr>"
  have op: "operation ?it = lit ''encrypt''" by (simp add: example_item_def)
  have name: "outputFieldName ?it = lit ''__proto__''" by simp
  have none: "keepOriginal ?it = Some (JBool False) \<or> json ?it (lit ''__proto__'') = None"
    by (simp add: example_item_def lit_def)
  from try_item_encrypt [OF length_example_key op, of xor_platform counter_source 0 0]
  obtain out where t: "try_item xor_platform counter_source example_key 0 ?it 0 = (Inr out, 16)"
    by auto
  from proto_field_not_stored [OF t name none] t show ?thesis
    by (auto simp: example_item_def)
qed

end
